theory Spec2Isabelle
  imports Main "HOL-Library.Word" "HOL-Library.AList"
begin

unbundle bit_operations_syntax

section \<open>Data model of chain.js\<close>

text \<open>
  Block hashes are the hex strings returned by \<open>block.hash('hex')\<close>.
\<close>

type_synonym hash = string

text \<open>
  A chain entry (\<open>ChainEntry\<close>). In the source \<open>entry.getPrevious()\<close> reads the
  parent from the block index by \<open>entry.prevBlock\<close>; an entry is built once from
  its parent (\<open>ChainEntry.fromBlock(chain, block, prev)\<close>) and the index never changes
  it, so the parent is a component of the entry here (\<open>e_prev\<close>, \<open>None\<close> for an entry
  without a stored parent, as the genesis entry). Walks over \<open>getPrevious()\<close> are then
  structural recursions.
\<close>

datatype entry = Entry
  (e_hash: hash)
  (e_prevBlock: hash)
  (e_version: "32 word")
  (e_ts: nat)
  (e_bits: nat)
  (e_height: int)
  (e_chainwork: nat)
  (e_prev: "entry option")

text \<open>
  A block object as the chain sees it: the header fields, \<open>getSize()\<close>,
  \<open>getCoinbaseHeight()\<close>, the \<open>memory\<close> flag of a compact block, the
  \<open>mutable\<close> option, and the field \<open>_valid\<close> in which \<open>verify\<close> keeps its verdict
  (\<open>null\<close> is \<open>None\<close>). A function that calls \<open>block.verify\<close> returns the object as
  the call leaves it.
\<close>

record block =
  blk_hash :: hash
  blk_prevBlock :: hash
  blk_version :: "32 word"
  blk_ts :: nat
  blk_bits :: nat
  blk_size :: int
  blk_coinbaseHeight :: int
  blk_memory :: bool
  blk_mutable :: bool
  blk_valid :: "bool option"

text \<open>
  A coin view, as far as the chain reads it: the height recorded for each outpoint
  (transaction hash and output index).
\<close>

type_synonym coinview = "((hash \<times> nat) \<times> int) list"

text \<open>\<open>DeploymentState\<close>: script flags, lock flags and the BIP34 switch.\<close>

record dstate =
  ds_flags :: "32 word"
  ds_lockFlags :: "32 word"
  ds_bip34 :: bool

text \<open>
  Errors: a \<open>VerifyError\<close> with its type, reason, score and \<open>malleated\<close> flag, or
  any other exception (\<open>new Error(msg)\<close>, a failed \<open>assert\<close>).
\<close>

datatype error =
  VerifyError (err_type: string) (err_reason: string) (err_score: int) (err_malleated: bool)
  | Error string

fun isVerifyError :: "error \<Rightarrow> bool" where
  "isVerifyError (VerifyError t r s m) = True"
| "isVerifyError (Error msg) = False"

fun malleated :: "error \<Rightarrow> bool" where
  "malleated (VerifyError t r s m) = m"
| "malleated (Error msg) = False"

text \<open>The events the chain emits, in the order of emission.\<close>

datatype event =
  EvTip entry
  | EvBlock block entry
  | EvConnect entry block coinview
  | EvDisconnect entry block coinview
  | EvReconnect entry block
  | EvReorganize block int hash
  | EvCompetitor block entry
  | EvCompetitorResolved block entry
  | EvResolved block entry
  | EvOrphan block int
  | EvExists block int
  | EvInvalid block int
  | EvFork hash int hash
  | EvCheckpoint hash int
  | EvPurge int int
  | EvUnresolved block
  | EvFull
  | EvReset entry

text \<open>
  Modelled from the spec: the \<open>ChainDB\<close> interface (chaindb.js is not among the
  sources). The index of entries and the block bodies, both by hash, and the hashes
  of the blocks whose inputs are connected (the main chain, tip first).
\<close>

record chaindb =
  db_entries :: "hash \<rightharpoonup> entry"
  db_blocks :: "hash \<rightharpoonup> block"
  db_main :: "hash list"

text \<open>
  The chain object. \<open>invalid\<close> is the LRU of invalid hashes (most recent first),
  \<open>orphanMap\<close> and \<open>orphanPrev\<close> are the two orphan objects with their keys in
  insertion order, \<open>pending\<close> the hashes queued in the locker, \<open>events\<close> the
  events emitted so far.
\<close>

record chain =
  tip :: entry
  height :: int
  synced :: bool
  checkpoints :: bool
  ch_total :: int
  state :: dstate
  invalid :: "hash list"
  orphanMap :: "(hash \<times> block) list"
  orphanPrev :: "(hash \<times> block) list"
  orphanCount :: int
  orphanSize :: int
  db :: chaindb
  pending :: "hash list"
  events :: "event list"

text \<open>
  What the chain takes from outside: the network parameters, the options, the clock,
  and the checks that rest on transactions, scripts and coins.
  \<^item> \<open>block_verify\<close> is \<open>block._verify(ret)\<close>, the checks behind
    \<open>block.verify(ret)\<close>: \<open>None\<close> when the block passes, the reason and score
    they leave in \<open>ret\<close> otherwise;
  \<^item> \<open>contextual_checks\<close> stands for the checks of \<open>Chain.verify\<close> after the
    non-contextual ones (target, timestamps, deployments, finality, coinbase height,
    witness commitment, weight);
  \<^item> \<open>duplicates_check\<close> and \<open>inputs_check\<close> stand for the bodies of
    \<open>verifyDuplicates\<close> and \<open>verifyInputs\<close> outside SPV mode;
  \<^item> \<open>getDeployments\<close> is \<open>Chain.getDeployments\<close> as the reset path calls it;
  \<^item> \<open>getProof\<close> is the work of a block with the given compact target;
  \<^item> \<open>toBlock\<close> parses a compact block (\<open>None\<close> when parsing throws); the chain
    takes the result as a new object;
  \<^item> \<open>toHeaders\<close> is the header-only block of an entry (\<open>entry.toHeader()\<close>,
    \<open>entry.toHeaders()\<close>), taken as a new object as well;
  \<^item> \<open>undo_view\<close> is the view \<open>db.disconnect\<close> returns.
\<close>

record env =
  genesis_hash :: hash
  checkpointMap :: "int \<rightharpoonup> hash"
  lastCheckpoint :: int
  maxTipAge :: int
  pow_chainwork :: nat
  now :: int
  opt_spv :: bool
  orphanLimit :: int
  getProof :: "nat \<Rightarrow> nat"
  block_verify :: "block \<Rightarrow> (string \<times> int) option"
  contextual_checks :: "block \<Rightarrow> entry \<Rightarrow> error + dstate"
  duplicates_check :: "chaindb \<Rightarrow> block \<Rightarrow> entry \<Rightarrow> dstate \<Rightarrow> error option"
  inputs_check :: "chaindb \<Rightarrow> block \<Rightarrow> entry \<Rightarrow> dstate \<Rightarrow> error + coinview"
  getDeployments :: "block \<Rightarrow> entry \<Rightarrow> error + dstate"
  toBlock :: "block \<Rightarrow> block option"
  toHeaders :: "entry \<Rightarrow> block"
  undo_view :: "entry \<Rightarrow> block \<Rightarrow> coinview"

definition emit :: "event \<Rightarrow> chain \<Rightarrow> chain" where
  "emit ev c = c\<lparr>events := events c @ [ev]\<rparr>"

section \<open>Invalid cache and orphan store\<close>

text \<open>
  Modelled from the spec: the invalid cache is a fixed-size LRU of block hashes
  (utils/lru.js is not among the sources; the chain creates it as \<open>new LRU(100)\<close>).
  The most recently set hash is first; a hash beyond the capacity is dropped.
\<close>

definition lru_has :: "hash list \<Rightarrow> hash \<Rightarrow> bool" where
  "lru_has xs h = (h \<in> set xs)"

definition lru_set :: "nat \<Rightarrow> hash list \<Rightarrow> hash \<Rightarrow> hash list" where
  "lru_set cap xs h = take cap (h # removeAll h xs)"

definition setInvalid :: "hash \<Rightarrow> chain \<Rightarrow> chain" where
  "setInvalid h c = c\<lparr>invalid := lru_set 100 (invalid c) h\<rparr>"

definition hasInvalid :: "hash \<Rightarrow> block \<Rightarrow> chain \<Rightarrow> bool \<times> chain" where
  "hasInvalid h b c =
     (if lru_has (invalid c) h then (True, c)
      else if lru_has (invalid c) (blk_prevBlock b) then (True, setInvalid h c)
      else (False, c))"

definition hasPending :: "chain \<Rightarrow> hash \<Rightarrow> bool" where
  "hasPending c h = (h \<in> set (pending c))"

definition storeOrphan :: "block \<Rightarrow> chain \<Rightarrow> chain" where
  "storeOrphan b c =
     emit (EvOrphan b (blk_coinbaseHeight b))
       (c\<lparr>orphanCount := orphanCount c + 1,
          orphanSize := orphanSize c + blk_size b,
          orphanPrev := AList.update (blk_prevBlock b) b (orphanPrev c),
          orphanMap := AList.update (blk_hash b) b (orphanMap c)\<rparr>)"

definition resolveOrphan :: "hash \<Rightarrow> chain \<Rightarrow> block option \<times> chain" where
  "resolveOrphan h c =
     (case map_of (orphanPrev c) h of
        None \<Rightarrow> (None, c)
      | Some b \<Rightarrow>
          (Some b,
           c\<lparr>orphanMap := AList.delete (blk_hash b) (orphanMap c),
             orphanPrev := AList.delete h (orphanPrev c),
             orphanCount := orphanCount c - 1,
             orphanSize := orphanSize c - blk_size b\<rparr>))"

definition purgeOrphans :: "chain \<Rightarrow> chain" where
  "purgeOrphans c =
     (if orphanCount c = 0 then c
      else emit (EvPurge (orphanCount c) (orphanSize c))
             (c\<lparr>orphanPrev := [], orphanMap := [], orphanCount := 0, orphanSize := 0\<rparr>))"

text \<open>
  The first loop of \<open>pruneOrphans\<close>: the orphan with the highest coinbase height,
  the first one seen winning a tie.
\<close>

fun pick_best :: "block \<Rightarrow> block list \<Rightarrow> block" where
  "pick_best best [] = best"
| "pick_best best (orphan # rest) =
     pick_best (if blk_coinbaseHeight orphan > blk_coinbaseHeight best then orphan else best) rest"

definition pruneOrphans :: "env \<Rightarrow> chain \<Rightarrow> bool \<times> chain" where
  "pruneOrphans env c =
     (if orphanSize c \<le> orphanLimit env then (False, c)
      else
        (case map snd (orphanPrev c) of
           [] \<Rightarrow> (False, c)
         | first # rest \<Rightarrow>
             (let best0 = pick_best first rest;
                  best = (if blk_coinbaseHeight best0 \<le> 0 then last (first # rest) else best0);
                  unresolved = filter (\<lambda>orphan. orphan \<noteq> best) (map snd (orphanMap c));
                  c1 = foldl (\<lambda>s orphan. emit (EvUnresolved orphan) s) c unresolved;
                  c2 = emit (EvPurge (orphanCount c - 1) (orphanSize c - blk_size best)) c1
              in (True,
                  c2\<lparr>orphanPrev := [(blk_prevBlock best, best)],
                     orphanMap := [(blk_hash best, best)],
                     orphanCount := 1,
                     orphanSize := blk_size best\<rparr>))))"

section \<open>Database operations\<close>

text \<open>
  Modelled from the spec: \<open>save(entry, block, view?)\<close> stores the entry and the block
  and, given a view, connects the block; \<open>reconnect\<close> and \<open>disconnect\<close> connect and
  disconnect a stored block; \<open>reset(hash)\<close> removes the main chain above the entry
  with that hash and returns the entry.
\<close>

definition db_hasEntry :: "chaindb \<Rightarrow> hash \<Rightarrow> bool" where
  "db_hasEntry d h = (db_entries d h \<noteq> None)"

definition db_save :: "chaindb \<Rightarrow> entry \<Rightarrow> block \<Rightarrow> coinview option \<Rightarrow> chaindb" where
  "db_save d entry b view =
     d\<lparr>db_entries := (db_entries d)(e_hash entry \<mapsto> entry),
       db_blocks := (db_blocks d)(e_hash entry \<mapsto> b),
       db_main := (case view of None \<Rightarrow> db_main d | Some v \<Rightarrow> e_hash entry # db_main d)\<rparr>"

definition db_reconnect :: "chaindb \<Rightarrow> entry \<Rightarrow> block \<Rightarrow> coinview \<Rightarrow> chaindb" where
  "db_reconnect d entry b view = d\<lparr>db_main := e_hash entry # db_main d\<rparr>"

definition db_disconnect :: "chaindb \<Rightarrow> entry \<Rightarrow> block \<Rightarrow> chaindb" where
  "db_disconnect d entry b = d\<lparr>db_main := removeAll (e_hash entry) (db_main d)\<rparr>"

definition db_reset :: "chaindb \<Rightarrow> hash \<Rightarrow> error + (entry \<times> chaindb)" where
  "db_reset d h =
     (case db_entries d h of
        None \<Rightarrow> Inl (Error ''Block not found.'')
      | Some e \<Rightarrow>
          (let removed = takeWhile (\<lambda>x. x \<noteq> h) (db_main d) in
           Inr (e, d\<lparr>db_entries := (\<lambda>k. if k \<in> set removed then None else db_entries d k),
                    db_blocks := (\<lambda>k. if k \<in> set removed then None else db_blocks d k),
                    db_main := dropWhile (\<lambda>x. x \<noteq> h) (db_main d)\<rparr>)))"

section \<open>Verification\<close>

text \<open>
  Modelled from the spec: \<open>new VerifyResult()\<close> (errors.js is not among the sources),
  the reason \<open>unknown\<close> and the score 0 until a check that fails sets them.
\<close>

definition new_VerifyResult :: "string \<times> int" where
  "new_VerifyResult = (''unknown'', 0)"

text \<open>
  \<open>AbstractBlock.prototype.verify\<close>: a verdict kept in \<open>_valid\<close> is returned as it
  is, and \<open>ret\<close> is left as it came; otherwise \<open>_verify\<close> runs, and the object keeps
  its verdict unless it is mutable. The result is the verdict, \<open>ret\<close> and the object after
  the call.
\<close>

definition abstractblock_verify :: "env \<Rightarrow> block \<Rightarrow> string \<times> int \<Rightarrow> bool \<times> (string \<times> int) \<times> block" where
  "abstractblock_verify env b ret =
     (case blk_valid b of
        Some valid \<Rightarrow> (valid, ret, b)
      | None \<Rightarrow>
          (case block_verify env b of
             None \<Rightarrow> (True, ret, if \<not> blk_mutable b then b\<lparr>blk_valid := Some True\<rparr> else b)
           | Some r \<Rightarrow> (False, r, if \<not> blk_mutable b then b\<lparr>blk_valid := Some False\<rparr> else b)))"

text \<open>
  The fields of a new object as the constructor \<open>AbstractBlock\<close> sets them:
  \<open>mutable\<close> false and \<open>_valid\<close> null. A block that the chain parses, reads from
  the database or makes from an entry is such an object.
\<close>

definition new_object :: "block \<Rightarrow> block" where
  "new_object b = b\<lparr>blk_mutable := False, blk_valid := None\<rparr>"

text \<open>
  \<open>Chain.verify\<close>: a failure of the non-contextual checks is flagged malleated
  unless its reason is \<open>high-hash\<close>; SPV mode skips the contextual checks.
\<close>

definition verify :: "env \<Rightarrow> chain \<Rightarrow> block \<Rightarrow> entry \<Rightarrow> (error + dstate) \<times> block" where
  "verify env c b prev =
     (case abstractblock_verify env b new_VerifyResult of
        (False, (reason, score), b1) \<Rightarrow>
          (Inl (VerifyError ''invalid'' reason score (reason \<noteq> ''high-hash'')), b1)
      | (True, ret, b1) \<Rightarrow>
          (if opt_spv env then Inr (state c) else contextual_checks env b1 prev, b1))"

definition verifyDuplicates :: "env \<Rightarrow> chain \<Rightarrow> block \<Rightarrow> entry \<Rightarrow> dstate \<Rightarrow> error option" where
  "verifyDuplicates env c b prev st =
     (if opt_spv env then None else duplicates_check env (db c) b prev st)"

definition verifyInputs :: "env \<Rightarrow> chain \<Rightarrow> block \<Rightarrow> entry \<Rightarrow> dstate \<Rightarrow> error + coinview" where
  "verifyInputs env c b prev st =
     (if opt_spv env then Inr [] else inputs_check env (db c) b prev st)"

definition verifyContext ::
  "env \<Rightarrow> chain \<Rightarrow> block \<Rightarrow> entry \<Rightarrow> (error + (coinview \<times> dstate)) \<times> block" where
  "verifyContext env c b prev =
     (case verify env c b prev of
        (Inl e, b1) \<Rightarrow> (Inl e, b1)
      | (Inr st, b1) \<Rightarrow>
          (case verifyDuplicates env c b1 prev st of
             Some e \<Rightarrow> (Inl e, b1)
           | None \<Rightarrow>
               (case verifyInputs env c b1 prev st of
                  Inl e \<Rightarrow> (Inl e, b1)
                | Inr view \<Rightarrow> (Inr (view, st), b1))))"

text \<open>
  The \<open>catch\<close> block shared by \<open>reconnect\<close>, \<open>setBestChain\<close> and
  \<open>saveAlternate\<close>: a \<open>VerifyError\<close> marks the hash invalid unless it is malleated,
  and emits \<open>invalid\<close>; the error is thrown again.
\<close>

definition on_verify_error :: "error \<Rightarrow> entry \<Rightarrow> block \<Rightarrow> chain \<Rightarrow> chain" where
  "on_verify_error e entry b c =
     (if isVerifyError e
      then emit (EvInvalid b (e_height entry))
             (if \<not> malleated e then setInvalid (e_hash entry) c else c)
      else c)"


section \<open>Sync gate\<close>

definition hasChainwork :: "env \<Rightarrow> chain \<Rightarrow> bool" where
  "hasChainwork env c = (e_chainwork (tip c) \<ge> pow_chainwork env)"

text \<open>\<open>Chain.prototype.maybeSync\<close>, with its early returns in the source's order.\<close>

definition maybeSync :: "env \<Rightarrow> chain \<Rightarrow> chain" where
  "maybeSync env c =
     (if synced c then c
      else if checkpoints c \<and> e_height (tip c) < lastCheckpoint env then c
      else
        (let c1 = (if checkpoints c then c\<lparr>checkpoints := False\<rparr> else c) in
         if int (e_ts (tip c1)) < now env - maxTipAge env then c1
         else if \<not> hasChainwork env c1 then c1
         else emit EvFull (c1\<lparr>synced := True\<rparr>)))"

section \<open>Reorganization\<close>

text \<open>
  \<open>ChainEntry.getPrevious()\<close>.
\<close>

definition getPrevious :: "entry \<Rightarrow> entry option" where
  "getPrevious e = e_prev e"

text \<open>
  The inner loop of \<open>findFork\<close>: walk the longer chain back while it is higher
  than the fork candidate.
\<close>

fun findFork_lower :: "entry \<Rightarrow> entry \<Rightarrow> error + entry" where
  "findFork_lower fork (Entry h pb v t b ht cw pr) =
     (if ht > e_height fork
      then (case pr of
              None \<Rightarrow> Inl (Error ''No previous entry for new tip.'')
            | Some p \<Rightarrow> findFork_lower fork p)
      else Inr (Entry h pb v t b ht cw pr))"

text \<open>\<open>Chain.prototype.findFork\<close>: the outer loop steps the fork candidate back.\<close>

fun findFork :: "entry \<Rightarrow> entry \<Rightarrow> error + entry" where
  "findFork (Entry h pb v t b ht cw pr) longer =
     (if h \<noteq> e_hash longer
      then (case findFork_lower (Entry h pb v t b ht cw pr) longer of
              Inl e \<Rightarrow> Inl e
            | Inr longer' \<Rightarrow>
                if h = e_hash longer' then Inr (Entry h pb v t b ht cw pr)
                else (case pr of
                        None \<Rightarrow> Inl (Error ''No previous entry for old tip.'')
                      | Some p \<Rightarrow> findFork p longer'))
      else Inr (Entry h pb v t b ht cw pr))"

text \<open>
  The two collecting loops of \<open>reorganize\<close>: the entries from \<open>entry\<close> back to
  the child of the fork, newest first; \<open>assert(entry)\<close> fails when the walk runs
  out of parents.
\<close>

fun collect_until :: "hash \<Rightarrow> entry \<Rightarrow> error + entry list" where
  "collect_until fh (Entry h pb v t b ht cw pr) =
     (if h \<noteq> fh
      then (case pr of
              None \<Rightarrow> Inl (Error ''assert(entry)'')
            | Some p \<Rightarrow>
                (case collect_until fh p of
                   Inl e \<Rightarrow> Inl e
                 | Inr es \<Rightarrow> Inr (Entry h pb v t b ht cw pr # es)))
      else Inr [])"

text \<open>
  The block of an entry as \<open>disconnect\<close> and \<open>reconnect\<close> load it: from the
  database, or the header of the entry in SPV mode; a new object either way.
\<close>

definition load_block :: "env \<Rightarrow> chain \<Rightarrow> entry \<Rightarrow> error + block" where
  "load_block env c entry =
     (case db_blocks (db c) (e_hash entry) of
        Some b \<Rightarrow> Inr (new_object b)
      | None \<Rightarrow>
          if \<not> opt_spv env then Inl (Error ''Block not found.'')
          else Inr (new_object (toHeaders env entry)))"

text \<open>\<open>Chain.prototype.disconnect\<close>.\<close>

definition disconnect :: "env \<Rightarrow> entry \<Rightarrow> chain \<Rightarrow> (error + unit) \<times> chain" where
  "disconnect env entry c =
     (case load_block env c entry of
        Inl e \<Rightarrow> (Inl e, c)
      | Inr b \<Rightarrow>
          (let c1 = c\<lparr>db := db_disconnect (db c) entry b\<rparr> in
           case getPrevious entry of
             None \<Rightarrow> (Inl (Error ''assert(prev)''), c1)
           | Some prev \<Rightarrow>
               (Inr (),
                emit (EvDisconnect entry b (undo_view env entry b))
                  (emit (EvTip prev) (c1\<lparr>tip := prev, height := e_height prev\<rparr>)))))"

text \<open>\<open>Chain.prototype.reconnect\<close>.\<close>

definition reconnect :: "env \<Rightarrow> entry \<Rightarrow> chain \<Rightarrow> (error + unit) \<times> chain" where
  "reconnect env entry c =
     (case load_block env c entry of
        Inl e \<Rightarrow> (Inl e, c)
      | Inr b \<Rightarrow>
          (case getPrevious entry of
             None \<Rightarrow> (Inl (Error ''assert(prev)''), c)
           | Some prev \<Rightarrow>
               (case verifyContext env c b prev of
                  (Inl e, b1) \<Rightarrow> (Inl e, on_verify_error e entry b1 c)
                | (Inr (view, st), b1) \<Rightarrow>
                    (Inr (),
                     emit (EvConnect entry b1 view)
                       (emit (EvReconnect entry b1)
                          (emit (EvTip entry)
                             (c\<lparr>db := db_reconnect (db c) entry b1 view,
                                tip := entry, height := e_height entry, state := st\<rparr>)))))))"

text \<open>The two \<open>for\<close> loops of \<open>reorganize\<close>; the first error ends the loop.\<close>

fun disconnect_all :: "env \<Rightarrow> entry list \<Rightarrow> chain \<Rightarrow> (error + unit) \<times> chain" where
  "disconnect_all env [] c = (Inr (), c)"
| "disconnect_all env (entry # es) c =
     (case disconnect env entry c of
        (Inl e, c1) \<Rightarrow> (Inl e, c1)
      | (Inr u, c1) \<Rightarrow> disconnect_all env es c1)"

fun reconnect_all :: "env \<Rightarrow> entry list \<Rightarrow> chain \<Rightarrow> (error + unit) \<times> chain" where
  "reconnect_all env [] c = (Inr (), c)"
| "reconnect_all env (entry # es) c =
     (case reconnect env entry c of
        (Inl e, c1) \<Rightarrow> (Inl e, c1)
      | (Inr u, c1) \<Rightarrow> reconnect_all env es c1)"

text \<open>
  \<open>Chain.prototype.reorganize\<close>. The connect loop runs from \<open>connect.length - 1\<close>
  down to index 1: the collected entries without the first (the competitor itself),
  oldest first.
\<close>

definition reorganize :: "env \<Rightarrow> entry \<Rightarrow> block \<Rightarrow> chain \<Rightarrow> (error + unit) \<times> chain" where
  "reorganize env competitor b c =
     (case findFork (tip c) competitor of
        Inl e \<Rightarrow> (Inl e, c)
      | Inr fork \<Rightarrow>
          (case collect_until (e_hash fork) (tip c) of
             Inl e \<Rightarrow> (Inl e, c)
           | Inr disconnects \<Rightarrow>
               (case collect_until (e_hash fork) competitor of
                  Inl e \<Rightarrow> (Inl e, c)
                | Inr connects \<Rightarrow>
                    (case disconnect_all env disconnects c of
                       (Inl e, c1) \<Rightarrow> (Inl e, c1)
                     | (Inr u, c1) \<Rightarrow>
                         (case reconnect_all env (rev (tl connects)) c1 of
                            (Inl e, c2) \<Rightarrow> (Inl e, c2)
                          | (Inr u', c2) \<Rightarrow>
                              (Inr (), emit (EvReorganize b (e_height (tip c)) (e_hash (tip c))) c2))))))"

text \<open>\<open>Chain.prototype.getDeploymentState\<close>.\<close>

definition getDeploymentState :: "env \<Rightarrow> chain \<Rightarrow> error + dstate" where
  "getDeploymentState env c =
     (case getPrevious (tip c) of
        None \<Rightarrow> Inr (state c)
      | Some prev \<Rightarrow>
          if opt_spv env then Inr (state c)
          else getDeployments env (new_object (toHeaders env (tip c))) prev)"

text \<open>
  \<open>Chain.prototype._reset\<close> (the reset without the lock). \<open>setDeploymentState\<close>
  only logs and stores the state.
\<close>

definition reset_nolock :: "env \<Rightarrow> hash \<Rightarrow> bool \<Rightarrow> chain \<Rightarrow> (error + unit) \<times> chain" where
  "reset_nolock env h silent c =
     (case db_reset (db c) h of
        Inl e \<Rightarrow> (Inl e, c)
      | Inr (t, d) \<Rightarrow>
          (let c1 = c\<lparr>db := d, tip := t, height := e_height t, synced := False\<rparr> in
           case getDeploymentState env c1 of
             Inl e \<Rightarrow> (Inl e, c1)
           | Inr st \<Rightarrow>
               (let c2 = emit (EvTip t) (c1\<lparr>state := st\<rparr>);
                    c3 = (if \<not> silent then emit (EvReset t) c2 else c2)
                in (Inr (), maybeSync env (purgeOrphans c3)))))"

text \<open>\<open>Chain.prototype.reorganizeSPV\<close>.\<close>

definition reorganizeSPV :: "env \<Rightarrow> entry \<Rightarrow> block \<Rightarrow> chain \<Rightarrow> (error + unit) \<times> chain" where
  "reorganizeSPV env competitor b c =
     (case findFork (tip c) competitor of
        Inl e \<Rightarrow> (Inl e, c)
      | Inr fork \<Rightarrow>
          (case collect_until (e_hash fork) (tip c) of
             Inl e \<Rightarrow> (Inl e, c)
           | Inr disconnects \<Rightarrow>
               (case reset_nolock env (e_hash fork) True c of
                  (Inl e, c1) \<Rightarrow> (Inl e, c1)
                | (Inr u, c1) \<Rightarrow>
                    (Inr (),
                     emit (EvReorganize b (e_height (tip c)) (e_hash (tip c)))
                       (foldl (\<lambda>s entry. emit (EvDisconnect entry (new_object (toHeaders env entry)) []) s)
                          c1 disconnects)))))"

section \<open>Placing a block\<close>

text \<open>
  The second half of \<open>setBestChain\<close>: contextual verification, then the save that
  connects the inputs and the new tip. The result is the block as the verification
  left it.
\<close>

definition connect_best :: "env \<Rightarrow> entry \<Rightarrow> block \<Rightarrow> entry \<Rightarrow> chain \<Rightarrow> (error + block) \<times> chain" where
  "connect_best env entry b prev c =
     (case verifyContext env c b prev of
        (Inl e, b1) \<Rightarrow> (Inl e, on_verify_error e entry b1 c)
      | (Inr (view, st), b1) \<Rightarrow>
          (Inr b1,
           emit (EvConnect entry b1 view)
             (emit (EvBlock b1 entry)
                (emit (EvTip entry)
                   (c\<lparr>db := db_save (db c) entry b1 (Some view),
                      tip := entry, height := e_height entry, state := st\<rparr>)))))"

text \<open>
  \<open>Chain.prototype.setBestChain\<close>. In SPV mode a reorganization returns right
  after \<open>reorganizeSPV\<close>.
\<close>

definition setBestChain :: "env \<Rightarrow> entry \<Rightarrow> block \<Rightarrow> entry \<Rightarrow> chain \<Rightarrow> (error + block) \<times> chain" where
  "setBestChain env entry b prev c =
     (if e_prevBlock entry \<noteq> e_hash (tip c)
      then (if opt_spv env
            then (case reorganizeSPV env entry b c of
                    (Inl e, c1) \<Rightarrow> (Inl e, c1)
                  | (Inr u, c1) \<Rightarrow> (Inr b, c1))
            else (case reorganize env entry b c of
                    (Inl e, c1) \<Rightarrow> (Inl e, c1)
                  | (Inr u, c1) \<Rightarrow> connect_best env entry b prev c1))
      else connect_best env entry b prev c)"

text \<open>
  \<open>Chain.prototype.saveAlternate\<close>: the save has no view. The result is the block as
  the verification left it.
\<close>

definition saveAlternate :: "env \<Rightarrow> entry \<Rightarrow> block \<Rightarrow> entry \<Rightarrow> chain \<Rightarrow> (error + block) \<times> chain" where
  "saveAlternate env entry b prev c =
     (case verify env c b prev of
        (Inl e, b1) \<Rightarrow> (Inl e, on_verify_error e entry b1 c)
      | (Inr st, b1) \<Rightarrow>
          (Inr b1, emit (EvCompetitor b1 entry) (c\<lparr>db := db_save (db c) entry b1 None\<rparr>)))"

text \<open>
  Modelled from the spec: \<open>ChainEntry.fromBlock\<close> (chainentry.js is not among the
  sources). The entry of a block on top of its parent: the height is the parent's plus
  one, the chainwork the parent's plus the proof of the block's target.
\<close>

definition fromBlock :: "env \<Rightarrow> block \<Rightarrow> entry \<Rightarrow> entry" where
  "fromBlock env b prev =
     Entry (blk_hash b) (blk_prevBlock b) (blk_version b) (blk_ts b) (blk_bits b)
       (e_height prev + 1) (e_chainwork prev + getProof env (blk_bits b)) (Some prev)"

section \<open>Adding a block\<close>

definition duplicate_error :: "int \<Rightarrow> error" where
  "duplicate_error score = VerifyError ''duplicate'' ''duplicate'' score False"

text \<open>
  \<open>_add\<close> calls \<open>this.seenOrphan(hash)\<close> with the hash string where
  \<open>seenOrphan(block)\<close> reads \<open>block.prevBlock\<close>: the property of a string is
  \<open>undefined\<close>, so the lookup is \<open>orphanPrev[undefined]\<close>, the key
  \<open>"undefined"\<close>. When nothing is stored under it the call returns false; otherwise
  \<open>block.hash('hex')\<close> on the string throws a TypeError.
\<close>

definition seenOrphan_hash :: "chain \<Rightarrow> error + bool" where
  "seenOrphan_hash c =
     (case map_of (orphanPrev c) ''undefined'' of
        None \<Rightarrow> Inr False
      | Some orphan \<Rightarrow> Inl (Error ''TypeError: block.hash is not a function''))"

text \<open>\<open>Chain.prototype.verifyCheckpoint\<close>.\<close>

definition verifyCheckpoint :: "env \<Rightarrow> entry \<Rightarrow> hash \<Rightarrow> chain \<Rightarrow> bool \<times> chain" where
  "verifyCheckpoint env prev h c =
     (if \<not> checkpoints c then (True, c)
      else (case checkpointMap env (e_height prev + 1) of
              None \<Rightarrow> (True, c)
            | Some checkpoint \<Rightarrow>
                if h = checkpoint then (True, emit (EvCheckpoint h (e_height prev + 1)) c)
                else (False, emit (EvFork h (e_height prev + 1) checkpoint) (purgeOrphans c))))"

text \<open>
  The body of the \<open>while\<close> loop of \<open>_add\<close>, in three parts. First the duplicate
  guards, the non-contextual verification and the lookup in the database; the result is
  the block as \<open>block.verify\<close> left it. \<open>_add\<close> creates \<open>ret\<close> once, before the
  loop: a verification that passes leaves it as created, and one that fails ends the
  loop, so that every round begins with \<open>ret\<close> as created.
\<close>

definition add_guards :: "env \<Rightarrow> block \<Rightarrow> chain \<Rightarrow> (error + block) \<times> chain" where
  "add_guards env b c =
     (if blk_hash b = genesis_hash env
      then (Inl (duplicate_error 0), emit (EvExists b (blk_coinbaseHeight b)) c)
      else if hasPending c (blk_hash b)
      then (Inl (duplicate_error 0), emit (EvExists b (blk_coinbaseHeight b)) c)
      else (case seenOrphan_hash c of
              Inl e \<Rightarrow> (Inl e, c)
            | Inr True \<Rightarrow> (Inl (duplicate_error 0), emit (EvOrphan b (blk_coinbaseHeight b)) c)
            | Inr False \<Rightarrow>
                (case hasInvalid (blk_hash b) b c of
                   (True, c1) \<Rightarrow> (Inl (duplicate_error 100), emit (EvInvalid b (blk_coinbaseHeight b)) c1)
                 | (False, c1) \<Rightarrow>
                     (case abstractblock_verify env b new_VerifyResult of
                        (False, (reason, score), b1) \<Rightarrow>
                          (Inl (VerifyError ''invalid'' reason score False),
                           emit (EvInvalid b1 (blk_coinbaseHeight b1)) c1)
                      | (True, ret, b1) \<Rightarrow>
                          if db_hasEntry (db c1) (blk_hash b1)
                          then (Inl (duplicate_error 0), emit (EvExists b1 (blk_coinbaseHeight b1)) c1)
                          else (Inr b1, c1)))))"

text \<open>
  Then the parent: an unknown parent stores the block as an orphan and throws
  \<open>bad-prevblk\<close>; a known one is checked against the checkpoints, and a compact
  block is parsed into a new object.
\<close>

definition add_prev :: "env \<Rightarrow> block \<Rightarrow> chain \<Rightarrow> (error + (block \<times> entry)) \<times> chain" where
  "add_prev env b c =
     (case db_entries (db c) (blk_prevBlock b) of
        None \<Rightarrow> (Inl (VerifyError ''invalid'' ''bad-prevblk'' 0 False), storeOrphan b c)
      | Some prev \<Rightarrow>
          (case verifyCheckpoint env prev (blk_hash b) c of
             (False, c1) \<Rightarrow> (Inl (VerifyError ''checkpoint'' ''checkpoint mismatch'' 100 False), c1)
           | (True, c1) \<Rightarrow>
               if blk_memory b
               then (case toBlock env b of
                       None \<Rightarrow> (Inl (VerifyError ''malformed'' ''error parsing message'' 100 False), c1)
                     | Some b' \<Rightarrow> (Inr (new_object b', prev), c1))
               else (Inr (b, prev), c1)))"

text \<open>
  Last the placement by chainwork: an entry with no more work than the tip is saved
  on an alternate chain, any other goes to \<open>setBestChain\<close>.
\<close>

definition add_place :: "env \<Rightarrow> bool \<Rightarrow> block \<Rightarrow> entry \<Rightarrow> chain \<Rightarrow> (error + entry) \<times> chain" where
  "add_place env initial b prev c =
     (let entry = fromBlock env b prev in
      if e_chainwork entry \<le> e_chainwork (tip c)
      then (case saveAlternate env entry b prev c of
              (Inl e, c1) \<Rightarrow> (Inl e, c1)
            | (Inr b1, c1) \<Rightarrow>
                (Inr entry, if \<not> initial then emit (EvCompetitorResolved b1 entry) c1 else c1))
      else (case setBestChain env entry b prev c of
              (Inl e, c1) \<Rightarrow> (Inl e, c1)
            | (Inr b1, c1) \<Rightarrow>
                (Inr entry, if \<not> initial then emit (EvResolved b1 entry) c1 else c1)))"

text \<open>\<open>Chain.prototype.finish\<close> counts the block; the rest of it logs.\<close>

definition finish :: "chain \<Rightarrow> chain" where
  "finish c = c\<lparr>ch_total := ch_total c + 1\<rparr>"

definition add_step :: "env \<Rightarrow> bool \<Rightarrow> block \<Rightarrow> chain \<Rightarrow> (error + entry) \<times> chain" where
  "add_step env initial b c =
     (case add_guards env b c of
        (Inl e, c1) \<Rightarrow> (Inl e, c1)
      | (Inr b1, c1) \<Rightarrow>
          (case add_prev env b1 c1 of
             (Inl e, c2) \<Rightarrow> (Inl e, c2)
           | (Inr (b', prev), c2) \<Rightarrow>
               (case add_place env initial b' prev c2 of
                  (Inl e, c3) \<Rightarrow> (Inl e, c3)
                | (Inr entry, c3) \<Rightarrow> (Inr entry, finish c3))))"

text \<open>
  The loop of \<open>_add\<close> ends when no orphan waits for the block just added. Each
  further round takes one orphan out of \<open>orphanPrev\<close>, and no round that returns
  an entry adds one: the lemmas below show it, for the termination proof of the loop.
\<close>

lemma emit_simps [simp]:
  "tip (emit ev c) = tip c" "height (emit ev c) = height c" "synced (emit ev c) = synced c"
  "checkpoints (emit ev c) = checkpoints c" "invalid (emit ev c) = invalid c"
  "orphanMap (emit ev c) = orphanMap c" "orphanPrev (emit ev c) = orphanPrev c"
  "orphanCount (emit ev c) = orphanCount c" "orphanSize (emit ev c) = orphanSize c"
  "db (emit ev c) = db c" "pending (emit ev c) = pending c" "state (emit ev c) = state c"
  "ch_total (emit ev c) = ch_total c"
  "events (emit ev c) = events c @ [ev]"
  by (simp_all add: emit_def)

lemma setInvalid_simps [simp]:
  "tip (setInvalid h c) = tip c" "height (setInvalid h c) = height c"
  "synced (setInvalid h c) = synced c" "checkpoints (setInvalid h c) = checkpoints c"
  "orphanMap (setInvalid h c) = orphanMap c" "orphanPrev (setInvalid h c) = orphanPrev c"
  "orphanCount (setInvalid h c) = orphanCount c" "orphanSize (setInvalid h c) = orphanSize c"
  "db (setInvalid h c) = db c" "pending (setInvalid h c) = pending c"
  "state (setInvalid h c) = state c" "events (setInvalid h c) = events c"
  "ch_total (setInvalid h c) = ch_total c"
  "invalid (setInvalid h c) = lru_set 100 (invalid c) h"
  by (simp_all add: setInvalid_def)

lemma on_verify_error_orphanPrev [simp]:
  "orphanPrev (on_verify_error e entry b c) = orphanPrev c"
  by (simp add: on_verify_error_def)

lemma purgeOrphans_orphanPrev:
  "length (orphanPrev (purgeOrphans c)) \<le> length (orphanPrev c)"
  by (simp add: purgeOrphans_def)

lemma maybeSync_orphanPrev [simp]: "orphanPrev (maybeSync env c) = orphanPrev c"
  by (simp add: maybeSync_def Let_def)

lemma foldl_emit_orphanPrev [simp]:
  "orphanPrev (foldl (\<lambda>s x. emit (f x) s) c xs) = orphanPrev c"
  by (induction xs arbitrary: c) simp_all

lemma hasInvalid_orphanPrev:
  "hasInvalid h b c = (r, c1) \<Longrightarrow> orphanPrev c1 = orphanPrev c"
  by (auto simp add: hasInvalid_def split: if_splits)

lemma add_guards_orphanPrev:
  "add_guards env b c = (r, c1) \<Longrightarrow> orphanPrev c1 = orphanPrev c"
  by (auto simp add: add_guards_def split: if_splits sum.splits bool.splits prod.splits option.splits
      dest: hasInvalid_orphanPrev)

lemma verifyCheckpoint_orphanPrev:
  "verifyCheckpoint env prev h c = (True, c1) \<Longrightarrow> orphanPrev c1 = orphanPrev c"
  by (auto simp add: verifyCheckpoint_def split: if_splits option.splits)

lemma add_prev_orphanPrev:
  "add_prev env b c = (Inr r, c1) \<Longrightarrow> orphanPrev c1 = orphanPrev c"
  by (auto simp add: add_prev_def split: if_splits option.splits prod.splits bool.splits
      dest: verifyCheckpoint_orphanPrev)

lemma saveAlternate_orphanPrev:
  "saveAlternate env entry b prev c = (r, c1) \<Longrightarrow> orphanPrev c1 = orphanPrev c"
  by (auto simp add: saveAlternate_def split: sum.splits prod.splits)

lemma connect_best_orphanPrev:
  "connect_best env entry b prev c = (r, c1) \<Longrightarrow> orphanPrev c1 = orphanPrev c"
  by (auto simp add: connect_best_def split: sum.splits prod.splits)

lemma disconnect_orphanPrev:
  "disconnect env entry c = (r, c1) \<Longrightarrow> orphanPrev c1 = orphanPrev c"
  by (auto simp add: disconnect_def Let_def split: sum.splits option.splits)

lemma reconnect_orphanPrev:
  "reconnect env entry c = (r, c1) \<Longrightarrow> orphanPrev c1 = orphanPrev c"
  by (auto simp add: reconnect_def split: sum.splits option.splits prod.splits)

lemma disconnect_all_orphanPrev:
  "disconnect_all env es c = (r, c1) \<Longrightarrow> orphanPrev c1 = orphanPrev c"
proof (induction es arbitrary: c)
  case Nil
  then show ?case by simp
next
  case (Cons e es)
  obtain r0 c0 where d: "disconnect env e c = (r0, c0)" by (cases "disconnect env e c")
  show ?case
  proof (cases r0)
    case (Inl err)
    with Cons.prems d show ?thesis by (auto dest: disconnect_orphanPrev)
  next
    case (Inr u)
    with Cons.prems d have "disconnect_all env es c0 = (r, c1)" by simp
    then have "orphanPrev c1 = orphanPrev c0" by (rule Cons.IH)
    with d show ?thesis by (auto dest: disconnect_orphanPrev)
  qed
qed

lemma reconnect_all_orphanPrev:
  "reconnect_all env es c = (r, c1) \<Longrightarrow> orphanPrev c1 = orphanPrev c"
proof (induction es arbitrary: c)
  case Nil
  then show ?case by simp
next
  case (Cons e es)
  obtain r0 c0 where d: "reconnect env e c = (r0, c0)" by (cases "reconnect env e c")
  show ?case
  proof (cases r0)
    case (Inl err)
    with Cons.prems d show ?thesis by (auto dest: reconnect_orphanPrev)
  next
    case (Inr u)
    with Cons.prems d have "reconnect_all env es c0 = (r, c1)" by simp
    then have "orphanPrev c1 = orphanPrev c0" by (rule Cons.IH)
    with d show ?thesis by (auto dest: reconnect_orphanPrev)
  qed
qed

lemma reorganize_orphanPrev:
  "reorganize env competitor b c = (r, c1) \<Longrightarrow> orphanPrev c1 = orphanPrev c"
  by (auto simp add: reorganize_def split: sum.splits prod.splits
      dest!: disconnect_all_orphanPrev reconnect_all_orphanPrev)

lemma reset_nolock_orphanPrev:
  "reset_nolock env h silent c = (r, c1) \<Longrightarrow> length (orphanPrev c1) \<le> length (orphanPrev c)"
  by (auto simp add: reset_nolock_def Let_def purgeOrphans_def split: sum.splits prod.splits if_splits)

lemma reorganizeSPV_orphanPrev:
  "reorganizeSPV env competitor b c = (r, c1) \<Longrightarrow> length (orphanPrev c1) \<le> length (orphanPrev c)"
  by (auto simp add: reorganizeSPV_def split: sum.splits prod.splits dest: reset_nolock_orphanPrev)

lemma setBestChain_orphanPrev:
  "setBestChain env entry b prev c = (r, c1) \<Longrightarrow> length (orphanPrev c1) \<le> length (orphanPrev c)"
  by (auto simp add: setBestChain_def split: if_splits sum.splits prod.splits
      dest!: reorganizeSPV_orphanPrev reorganize_orphanPrev connect_best_orphanPrev)

lemma add_place_orphanPrev:
  "add_place env initial b prev c = (r, c1) \<Longrightarrow> length (orphanPrev c1) \<le> length (orphanPrev c)"
  by (auto simp add: add_place_def Let_def split: if_splits sum.splits prod.splits
      dest!: saveAlternate_orphanPrev setBestChain_orphanPrev)

lemma add_step_orphanPrev:
  "add_step env initial b c = (Inr entry, c1) \<Longrightarrow> length (orphanPrev c1) \<le> length (orphanPrev c)"
  by (auto simp add: add_step_def finish_def split: sum.splits prod.splits
      dest!: add_guards_orphanPrev add_prev_orphanPrev add_place_orphanPrev)

lemma length_delete_less:
  "map_of xs k = Some v \<Longrightarrow> length (AList.delete k xs) < length xs"
  by (induction xs) (auto simp add: less_Suc_eq_le AList.delete_eq split: if_splits)

lemma resolveOrphan_orphanPrev:
  "resolveOrphan h c = (Some b, c1) \<Longrightarrow> length (orphanPrev c1) < length (orphanPrev c)"
  by (auto simp add: resolveOrphan_def split: option.splits dest: length_delete_less)

function add_loop :: "env \<Rightarrow> bool \<Rightarrow> entry option \<Rightarrow> block \<Rightarrow> chain \<Rightarrow> (error + entry) \<times> chain" where
  "add_loop env initial result b c =
     (case add_step env initial b c of
        (Inl e, c1) \<Rightarrow> (Inl e, c1)
      | (Inr entry, c1) \<Rightarrow>
          (case resolveOrphan (blk_hash b) c1 of
             (None, c2) \<Rightarrow> (Inr (case result of None \<Rightarrow> entry | Some r \<Rightarrow> r), c2)
           | (Some b', c2) \<Rightarrow>
               add_loop env False (Some (case result of None \<Rightarrow> entry | Some r \<Rightarrow> r)) b' c2))"
  by pat_completeness auto
termination
  apply (relation "measure (\<lambda>(env, initial, result, b, c). length (orphanPrev c))")
   apply simp
  apply (auto dest!: add_step_orphanPrev [OF sym] resolveOrphan_orphanPrev [OF sym])
  done


text \<open>
  \<open>Chain.prototype._add\<close>: the loop, then \<open>pruneOrphans\<close> and \<open>maybeSync\<close>.
  An error thrown in the loop skips both.
\<close>

definition add_nolock :: "env \<Rightarrow> block \<Rightarrow> chain \<Rightarrow> (error + entry) \<times> chain" where
  "add_nolock env b c =
     (case add_loop env True None b c of
        (Inl e, c1) \<Rightarrow> (Inl e, c1)
      | (Inr r, c1) \<Rightarrow> (Inr r, maybeSync env (snd (pruneOrphans env c1))))"

text \<open>
  \<open>Chain.prototype.add\<close> takes the lock for the hash and calls \<open>_add\<close>; with
  one caller at a time the lock changes nothing.
\<close>

definition add :: "env \<Rightarrow> block \<Rightarrow> chain \<Rightarrow> (error + entry) \<times> chain" where
  "add env b c = add_nolock env b c"

section \<open>Chain entries: ancestors and median time\<close>

text \<open>
  The entries reached from an entry by \<open>getPrevious()\<close>, the entry itself first.
\<close>

fun ancestors_from :: "entry \<Rightarrow> entry list" where
  "ancestors_from (Entry h pb v t b ht cw pr) =
     Entry h pb v t b ht cw pr # (case pr of None \<Rightarrow> [] | Some p \<Rightarrow> ancestors_from p)"

text \<open>
  Modelled from the spec: \<open>ChainEntry.getAncestor(height)\<close>, the ancestor of the
  entry at the given height (chainentry.js is not among the sources): the walk over
  \<open>getPrevious()\<close> down to that height, and nothing for a height below zero or above
  the entry's own.
\<close>

fun getAncestor :: "entry \<Rightarrow> int \<Rightarrow> entry option" where
  "getAncestor (Entry h pb v t b ht cw pr) target =
     (if target < 0 \<or> target > ht then None
      else if ht = target then Some (Entry h pb v t b ht cw pr)
      else (case pr of None \<Rightarrow> None | Some p \<Rightarrow> getAncestor p target))"

text \<open>
  Modelled from the spec: the median time past of an entry, the median of the
  timestamps of the entry and its ancestors, eleven at most.
\<close>

definition getMedianTime :: "entry \<Rightarrow> nat" where
  "getMedianTime e =
     (let median = sort (map e_ts (take 11 (ancestors_from e)))
      in median ! (length median div 2))"

section \<open>Sequence locks\<close>

text \<open>
  An input with its outpoint and sequence number, and a transaction as \<open>getLocks\<close>
  reads it.
\<close>

record txinput =
  in_prevout :: "hash \<times> nat"
  in_sequence :: "32 word"

record tx =
  tx_version :: nat
  tx_isCoinbase :: bool
  tx_inputs :: "txinput list"

text \<open>
  The constants of protocol/consensus.js and the \<open>VERIFY_SEQUENCE\<close> lock flag of
  blockchain/common.js, which are not among the sources.
\<close>

record consensus =
  SEQUENCE_MASK :: "32 word"
  SEQUENCE_GRANULARITY :: nat
  SEQUENCE_DISABLE_FLAG :: "32 word"
  SEQUENCE_TYPE_FLAG :: "32 word"
  VERIFY_SEQUENCE :: "32 word"

record locktimes =
  lt_height :: int
  lt_time :: int

text \<open>
  Modelled from the spec: \<open>CoinView.getHeight\<close>, the height of the coin an input
  spends, \<open>-1\<close> when the view does not know it.
\<close>

definition getHeight :: "coinview \<Rightarrow> txinput \<Rightarrow> int" where
  "getHeight view input = (case map_of view (in_prevout input) of None \<Rightarrow> - 1 | Some h \<Rightarrow> h)"

text \<open>
  The coin height \<open>getLocks\<close> works with: a coin the view does not know counts as
  created at the next height of the chain.
\<close>

definition coinHeight :: "chain \<Rightarrow> coinview \<Rightarrow> txinput \<Rightarrow> int" where
  "coinHeight c view input =
     (if getHeight view input = - 1 then height c + 1 else getHeight view input)"

text \<open>
  The bit operations of the source work on 32-bit integers and give a signed result;
  a shift count is taken modulo 32.
\<close>

definition js_and :: "32 word \<Rightarrow> 32 word \<Rightarrow> int" where
  "js_and a b = sint (a AND b)"

definition js_and_shl :: "32 word \<Rightarrow> 32 word \<Rightarrow> nat \<Rightarrow> int" where
  "js_and_shl a b n = sint (push_bit (n mod 32) (a AND b))"

text \<open>The loop of \<open>getLocks\<close> over the inputs.\<close>

fun getLocks_loop ::
  "consensus \<Rightarrow> chain \<Rightarrow> entry \<Rightarrow> coinview \<Rightarrow> txinput list \<Rightarrow> int \<Rightarrow> int \<Rightarrow> error + locktimes" where
  "getLocks_loop k c prev view [] minHeight minTime =
     Inr \<lparr>lt_height = minHeight, lt_time = minTime\<rparr>"
| "getLocks_loop k c prev view (input # rest) minHeight minTime =
     (if js_and (in_sequence input) (SEQUENCE_DISABLE_FLAG k) \<noteq> 0
      then getLocks_loop k c prev view rest minHeight minTime
      else if js_and (in_sequence input) (SEQUENCE_TYPE_FLAG k) = 0
      then getLocks_loop k c prev view rest
             (max minHeight
                (coinHeight c view input + (js_and (in_sequence input) (SEQUENCE_MASK k) - 1)))
             minTime
      else (case getAncestor prev (max (coinHeight c view input - 1) 0) of
              None \<Rightarrow> Inl (Error ''Database is corrupt.'')
            | Some entry \<Rightarrow>
                getLocks_loop k c prev view rest minHeight
                  (max minTime
                     (int (getMedianTime entry)
                      + (js_and_shl (in_sequence input) (SEQUENCE_MASK k) (SEQUENCE_GRANULARITY k) - 1)))))"

text \<open>\<open>Chain.prototype.getLocks\<close>.\<close>

definition getLocks ::
  "consensus \<Rightarrow> chain \<Rightarrow> entry \<Rightarrow> tx \<Rightarrow> coinview \<Rightarrow> 32 word \<Rightarrow> error + locktimes" where
  "getLocks k c prev t view flags =
     (if tx_isCoinbase t \<or> tx_version t < 2 \<or> js_and flags (VERIFY_SEQUENCE k) = 0
      then Inr \<lparr>lt_height = - 1, lt_time = - 1\<rparr>
      else getLocks_loop k c prev view (tx_inputs t) (- 1) (- 1))"

text \<open>\<open>Chain.prototype.verifyLocks\<close>.\<close>

definition verifyLocks ::
  "consensus \<Rightarrow> chain \<Rightarrow> entry \<Rightarrow> tx \<Rightarrow> coinview \<Rightarrow> 32 word \<Rightarrow> error + bool" where
  "verifyLocks k c prev t view flags =
     (case getLocks k c prev t view flags of
        Inl e \<Rightarrow> Inl e
      | Inr locks \<Rightarrow>
          if lt_height locks \<ge> e_height prev + 1 then Inr False
          else if lt_time locks = - 1 then Inr True
          else if lt_time locks \<ge> int (getMedianTime prev) then Inr False
          else Inr True)"

section \<open>Versionbits\<close>

text \<open>The threshold states of common.thresholdStates.\<close>

datatype threshold = DEFINED | STARTED | LOCKED_IN | ACTIVE | FAILED

record deployment =
  dep_bit :: nat
  dep_startTime :: int
  dep_timeout :: int

text \<open>The network parameters \<open>minerWindow\<close> and \<open>activationThreshold\<close>.\<close>

record versionbits =
  minerWindow :: int
  activationThreshold :: int

text \<open>
  Modelled from the spec: the state cache of the database, keyed by the bit and the
  hash of the entry; a missing key reads as \<open>-1\<close> in the source, \<open>None\<close> here.
\<close>

type_synonym statecache = "(nat \<times> hash) \<rightharpoonup> threshold"

text \<open>
  Modelled from the spec: \<open>ChainEntry.hasBit\<close>, whether the block signals the bit
  (the version carries the versionbits top bits and the bit of the deployment).
\<close>

definition hasBit :: "entry \<Rightarrow> nat \<Rightarrow> bool" where
  "hasBit e n = (e_version e AND 0xE0000000 = 0x20000000 \<and> bit (e_version e) n)"

text \<open>The remainder operator of the source: the sign follows the dividend.\<close>

definition js_rem :: "int \<Rightarrow> int \<Rightarrow> int" where
  "js_rem a b = (if a < 0 then - ((- a) mod \<bar>b\<bar>) else a mod \<bar>b\<bar>)"

lemma getAncestor_height_size:
  "getAncestor e target = Some a \<Longrightarrow>
     e_height a = target \<and> size a \<le> size e \<and> (target \<noteq> e_height e \<longrightarrow> size a < size e)"
proof (induction e target rule: getAncestor.induct)
  case (1 h pb v t b ht cw pr target)
  show ?case
  proof (cases "ht = target")
    case True
    with "1.prems" show ?thesis by (auto split: if_splits)
  next
    case False
    with "1.prems" obtain p where p: "pr = Some p" "getAncestor p target = Some a"
      and r: "\<not> (target < 0 \<or> target > ht)"
      by (auto split: if_splits option.splits)
    from "1.IH" [OF r False p] p(1) False show ?thesis by simp
  qed
qed

lemma getAncestor_smaller:
  "getAncestor e target = Some a \<Longrightarrow> target < e_height e \<Longrightarrow> size a < size e"
  using getAncestor_height_size [of e target a] by simp

text \<open>
  The first loop of \<open>getState\<close>: walk back over the period boundaries to the first
  one with a cached state, or with a median time before the start time, or without an
  ancestor one window below. The entries passed are pushed on \<open>compute\<close> (the last
  pushed first here). With a window of zero or less the height asked of
  \<open>getAncestor\<close> is not below the entry's own and its assertion fails.
\<close>

function walk_back ::
  "versionbits \<Rightarrow> deployment \<Rightarrow> statecache \<Rightarrow> entry \<Rightarrow> entry list
     \<Rightarrow> (error + (threshold \<times> entry list)) \<times> statecache" where
  "walk_back k d cache entry compute =
     (case cache (dep_bit d, e_hash entry) of
        Some cached \<Rightarrow> (Inr (cached, compute), cache)
      | None \<Rightarrow>
          if int (getMedianTime entry) < dep_startTime d
          then (Inr (DEFINED, compute), cache((dep_bit d, e_hash entry) \<mapsto> DEFINED))
          else if minerWindow k \<le> 0
          then (Inl (Error ''assert(height <= this.height)''), cache)
          else (case getAncestor entry (e_height entry - minerWindow k) of
                  None \<Rightarrow> (Inr (DEFINED, entry # compute), cache)
                | Some a \<Rightarrow> walk_back k d cache a (entry # compute)))"
  by pat_completeness auto
termination
  by (relation "measure (\<lambda>(k, d, cache, entry, compute). size entry)")
     (auto dest: getAncestor_smaller)

text \<open>
  The counting loop of the \<open>STARTED\<close> case: \<open>period\<close> rounds at most, each reading
  the bit of a block and stepping to its parent; the count reaching the threshold ends
  the loop with \<open>LOCKED_IN\<close>.
\<close>

fun count_loop :: "versionbits \<Rightarrow> deployment \<Rightarrow> nat \<Rightarrow> entry \<Rightarrow> int \<Rightarrow> error + bool" where
  "count_loop k d 0 blk count = Inr False"
| "count_loop k d (Suc n) blk count =
     (let count' = (if hasBit blk (dep_bit d) then count + 1 else count) in
      if count' \<ge> activationThreshold k then Inr True
      else (case getPrevious blk of
              None \<Rightarrow> Inl (Error ''assert(block)'')
            | Some p \<Rightarrow> count_loop k d n p count'))"

text \<open>The \<open>switch\<close> of the second loop.\<close>

fun next_state :: "versionbits \<Rightarrow> deployment \<Rightarrow> threshold \<Rightarrow> entry \<Rightarrow> error + threshold" where
  "next_state k d DEFINED entry =
     (if int (getMedianTime entry) \<ge> dep_timeout d then Inr FAILED
      else if int (getMedianTime entry) \<ge> dep_startTime d then Inr STARTED
      else Inr DEFINED)"
| "next_state k d STARTED entry =
     (if int (getMedianTime entry) \<ge> dep_timeout d then Inr FAILED
      else (case count_loop k d (nat (minerWindow k)) entry 0 of
              Inl e \<Rightarrow> Inl e
            | Inr True \<Rightarrow> Inr LOCKED_IN
            | Inr False \<Rightarrow> Inr STARTED))"
| "next_state k d LOCKED_IN entry = Inr ACTIVE"
| "next_state k d FAILED entry = Inr FAILED"
| "next_state k d ACTIVE entry = Inr ACTIVE"

text \<open>The second loop: pop the entries, oldest first, and cache each state.\<close>

fun compute_states ::
  "versionbits \<Rightarrow> deployment \<Rightarrow> entry list \<Rightarrow> threshold \<Rightarrow> statecache
     \<Rightarrow> (error + threshold) \<times> statecache" where
  "compute_states k d [] st cache = (Inr st, cache)"
| "compute_states k d (entry # rest) st cache =
     (case next_state k d st entry of
        Inl e \<Rightarrow> (Inl e, cache)
      | Inr st' \<Rightarrow> compute_states k d rest st' (cache((dep_bit d, e_hash entry) \<mapsto> st')))"

text \<open>
  \<open>Chain.prototype.getState\<close>. A window of zero makes the remainder \<open>NaN\<close> and
  the assertion of \<open>getAncestor\<close> fail.
\<close>

definition getState ::
  "versionbits \<Rightarrow> deployment \<Rightarrow> statecache \<Rightarrow> entry option \<Rightarrow> (error + threshold) \<times> statecache" where
  "getState k d cache prev =
     (case prev of
        None \<Rightarrow> (Inr DEFINED, cache)
      | Some p \<Rightarrow>
          if minerWindow k = 0 then (Inl (Error ''assert(height >= 0)''), cache)
          else
            (case (if js_rem (e_height p + 1) (minerWindow k) \<noteq> 0
                   then getAncestor p (e_height p - js_rem (e_height p + 1) (minerWindow k))
                   else Some p) of
               None \<Rightarrow> (Inr DEFINED, cache)
             | Some entry \<Rightarrow>
                 (case walk_back k d cache entry [] of
                    (Inl e, cache1) \<Rightarrow> (Inl e, cache1)
                  | (Inr (st, compute), cache1) \<Rightarrow> compute_states k d compute st cache1)))"

declare walk_back.simps [simp del]


section \<open>Block template builder\<close>

text \<open>
  Modelled from the spec: an entry of the mempool snapshot as \<open>Miner.build\<close> reads it
  through \<open>BlockEntry.fromEntry\<close> (the mempool and the block template are not among the
  sources): the hash of the transaction, the transaction hashes its inputs spend, and
  what the selection tests (\<open>it_final\<close> is \<open>tx.isFinal\<close> at the height and locktime
  of the attempt). \<open>mempool.hasTX\<close> holds of the hashes of the snapshot.
\<close>

record item =
  it_hash :: hash
  it_prevouts :: "hash list"
  it_isCoinbase :: bool
  it_final :: bool
  it_hasWitness :: bool
  it_weight :: int
  it_sigops :: int
  it_fee :: int
  it_priority :: int
  it_rate :: int
  it_free :: bool

text \<open>
  The options of the miner, the \<open>witness\<close> flag of the attempt, and
  \<open>util.binarySearch\<close> (utils/util.js is not among the sources), which gives the
  index at which \<open>binaryInsert\<close> splices an item into the queue.
\<close>

record miner =
  maxWeight :: int
  maxSigops :: int
  priorityWeight :: int
  minPriority :: int
  minWeight :: int
  attempt_witness :: bool
  binarySearch :: "(item \<Rightarrow> item \<Rightarrow> int) \<Rightarrow> item list \<Rightarrow> item \<Rightarrow> nat"

definition cmpPriority :: "item \<Rightarrow> item \<Rightarrow> int" where
  "cmpPriority a b = it_priority a - it_priority b"

definition cmpRate :: "item \<Rightarrow> item \<Rightarrow> int" where
  "cmpRate a b = it_rate a - it_rate b"

text \<open>
  The state of \<open>build\<close>. An item is named by its index in the snapshot of the
  mempool; \<open>bs_depCount\<close> holds the \<open>depCount\<close> of each item, \<open>bs_queue\<close> the
  array of the queue (\<open>pop\<close> takes the last), \<open>bs_priority\<close> tells whether the
  queue still compares by priority, and \<open>bs_txs\<close> is the transaction vector of the
  block, in the order of the pushes.
\<close>

record buildstate =
  bs_queue :: "nat list"
  bs_priority :: bool
  bs_depCount :: "nat \<Rightarrow> int"
  bs_weight :: int
  bs_sigops :: int
  bs_fees :: int
  bs_txs :: "nat list"

text \<open>\<open>depMap\<close>: for a transaction hash, the items that spend it, one per input.\<close>

type_synonym depmap = "(hash \<times> nat list) list"

definition deps_of :: "depmap \<Rightarrow> hash \<Rightarrow> nat list" where
  "deps_of dm h = (case map_of dm h of None \<Rightarrow> [] | Some l \<Rightarrow> l)"

text \<open>\<open>Queue.push\<close>: splice the item in at the index the binary search gives.\<close>

definition queue_push :: "miner \<Rightarrow> item list \<Rightarrow> bool \<Rightarrow> nat list \<Rightarrow> nat \<Rightarrow> nat list" where
  "queue_push m items prio q i =
     (let pos = min (binarySearch m (if prio then cmpPriority else cmpRate)
                       (map (\<lambda>j. items ! j) q) (items ! i))
                    (length q)
      in take pos q @ [i] @ drop pos q)"

text \<open>
  The inner loop of the first part: each input that spends a transaction of the mempool
  counts one dependency and appends the item to the dependents of that transaction.
\<close>

fun count_deps :: "hash list \<Rightarrow> nat \<Rightarrow> hash list \<Rightarrow> int \<Rightarrow> depmap \<Rightarrow> int \<times> depmap" where
  "count_deps mh i [] c dm = (c, dm)"
| "count_deps mh i (prev # rest) c dm =
     (if prev \<notin> set mh then count_deps mh i rest c dm
      else count_deps mh i rest (c + 1) (AList.update prev (deps_of dm prev @ [i]) dm))"

text \<open>
  The first loop, over the snapshot: \<open>i\<close> is the index of the next item, \<open>rest\<close>
  the items from there on.
\<close>

fun init_loop ::
  "miner \<Rightarrow> item list \<Rightarrow> nat \<Rightarrow> item list \<Rightarrow> nat list \<Rightarrow> (nat \<Rightarrow> int) \<Rightarrow> depmap
     \<Rightarrow> error + (nat list \<times> (nat \<Rightarrow> int) \<times> depmap)" where
  "init_loop m items i [] q dc dm = Inr (q, dc, dm)"
| "init_loop m items i (it # rest) q dc dm =
     (if it_isCoinbase it then Inl (Error ''Cannot add coinbase to block.'')
      else (case count_deps (map it_hash items) i (it_prevouts it) 0 dm of
              (c, dm') \<Rightarrow>
                if c > 0 then init_loop m items (Suc i) rest q (dc(i := c)) dm'
                else init_loop m items (Suc i) rest (queue_push m items True q i) (dc(i := c)) dm'))"

text \<open>
  The loop over the dependents of a transaction that went into the block: each loses
  one dependency, and one that reaches zero is pushed on the queue.
\<close>

fun release ::
  "miner \<Rightarrow> item list \<Rightarrow> bool \<Rightarrow> nat list \<Rightarrow> (nat \<Rightarrow> int) \<Rightarrow> nat list \<Rightarrow> (nat \<Rightarrow> int) \<times> nat list" where
  "release m items prio [] dc q = (dc, q)"
| "release m items prio (j # js) dc q =
     (if dc j - 1 = 0
      then release m items prio js (dc(j := dc j - 1)) (queue_push m items prio q j)
      else release m items prio js (dc(j := dc j - 1)) q)"

text \<open>
  One round of the main loop: \<open>None\<close> when the queue is empty, the next state
  otherwise.
\<close>

definition build_step :: "miner \<Rightarrow> item list \<Rightarrow> depmap \<Rightarrow> buildstate \<Rightarrow> buildstate option" where
  "build_step m items dm s =
     (if bs_queue s = [] then None
      else
        (let i = last (bs_queue s);
             it = items ! i;
             s1 = s\<lparr>bs_queue := butlast (bs_queue s)\<rparr>;
             weight = bs_weight s + it_weight it;
             sigops = bs_sigops s + it_sigops it
         in if \<not> it_final it then Some s1
            else if \<not> attempt_witness m \<and> it_hasWitness it then Some s1
            else if weight > maxWeight m then Some s1
            else if sigops > maxSigops m then Some s1
            else if bs_priority s \<and> (weight > priorityWeight m \<or> it_priority it < minPriority m)
            then Some (s1\<lparr>bs_priority := False,
                         bs_queue := queue_push m items False (butlast (bs_queue s)) i\<rparr>)
            else if \<not> bs_priority s \<and> it_free it \<and> weight \<ge> minWeight m then Some s1
            else
              (let s2 = s1\<lparr>bs_weight := weight, bs_sigops := sigops,
                           bs_fees := bs_fees s + it_fee it, bs_txs := bs_txs s @ [i]\<rparr>
               in case map_of dm (it_hash it) of
                    None \<Rightarrow> Some s2
                  | Some deps \<Rightarrow>
                      (case release m items (bs_priority s) deps (bs_depCount s2) (bs_queue s2) of
                         (dc, q) \<Rightarrow> Some (s2\<lparr>bs_depCount := dc, bs_queue := q\<rparr>)))))"

text \<open>
  The rounds end: a round takes an item off the queue, and an item is pushed back only
  when the queue leaves the priority order (once) or when a count of dependencies falls
  from one to zero.
\<close>

definition dep_ids :: "depmap \<Rightarrow> nat list" where
  "dep_ids dm = remdups (concat (map snd dm))"

definition potential :: "depmap \<Rightarrow> (nat \<Rightarrow> int) \<Rightarrow> nat" where
  "potential dm dc = sum_list (map (\<lambda>j. nat (dc j)) (dep_ids dm))"

definition rounds_left :: "depmap \<Rightarrow> buildstate \<Rightarrow> nat" where
  "rounds_left dm s =
     2 * potential dm (bs_depCount s) + length (bs_queue s) + (if bs_priority s then 1 else 0)"

lemma length_queue_push [simp]: "length (queue_push m items prio q i) = Suc (length q)"
  by (simp add: queue_push_def Let_def)

lemma sum_list_unchanged:
  "j \<notin> set js \<Longrightarrow> sum_list (map (\<lambda>i. nat ((dc(j := v)) i)) js) = sum_list (map (\<lambda>i. nat (dc i)) js)"
  by (induction js) auto

lemma sum_list_update:
  "distinct js \<Longrightarrow> j \<in> set js \<Longrightarrow>
     sum_list (map (\<lambda>i. nat ((dc(j := v)) i)) js) + nat (dc j)
       = sum_list (map (\<lambda>i. nat (dc i)) js) + nat v"
proof (induction js)
  case Nil
  then show ?case by simp
next
  case (Cons a js)
  show ?case
  proof (cases "a = j")
    case True
    with Cons.prems have "j \<notin> set js" by simp
    from sum_list_unchanged [OF this, of dc v] True show ?thesis by simp
  next
    case False
    with Cons.prems have "distinct js" "j \<in> set js" by simp_all
    from Cons.IH [OF this] False show ?thesis by simp
  qed
qed

lemma potential_decrement:
  assumes "j \<in> set (dep_ids dm)"
  shows "potential dm (dc(j := dc j - 1)) + (if dc j > 0 then 1 else 0) = potential dm dc"
proof -
  have "distinct (dep_ids dm)" by (simp add: dep_ids_def)
  from sum_list_update [OF this assms, of dc "dc j - 1"]
  have "potential dm (dc(j := dc j - 1)) + nat (dc j) = potential dm dc + nat (dc j - 1)"
    by (simp add: potential_def)
  then show ?thesis by (auto split: if_splits)
qed

lemma release_rounds:
  "set js \<subseteq> set (dep_ids dm) \<Longrightarrow> release m items prio js dc q = (dc', q') \<Longrightarrow>
     2 * potential dm dc' + length q' \<le> 2 * potential dm dc + length q"
proof (induction js arbitrary: dc q)
  case Nil
  then show ?case by simp
next
  case (Cons j js)
  from Cons.prems(1) have j: "j \<in> set (dep_ids dm)" and js: "set js \<subseteq> set (dep_ids dm)" by simp_all
  define dcu where "dcu = dc(j := dc j - 1)"
  have p: "potential dm dcu + (if dc j > 0 then 1 else 0) = potential dm dc"
    unfolding dcu_def by (rule potential_decrement [OF j])
  show ?case
  proof (cases "dc j - 1 = 0")
    case True
    with Cons.prems(2) have
      "release m items prio js dcu (queue_push m items prio q j) = (dc', q')"
      by (simp add: dcu_def)
    from Cons.IH [OF js this]
    have "2 * potential dm dc' + length q' \<le> 2 * potential dm dcu + Suc (length q)" by simp
    moreover from True p have "potential dm dcu + 1 = potential dm dc" by simp
    ultimately show ?thesis by linarith
  next
    case False
    with Cons.prems(2) have "release m items prio js dcu q = (dc', q')" by (simp add: dcu_def)
    from Cons.IH [OF js this]
    have "2 * potential dm dc' + length q' \<le> 2 * potential dm dcu + length q" .
    moreover from p have "potential dm dcu \<le> potential dm dc" by (simp split: if_splits)
    ultimately show ?thesis by linarith
  qed
qed

lemma deps_in_dep_ids: "map_of dm h = Some deps \<Longrightarrow> set deps \<subseteq> set (dep_ids dm)"
  by (auto simp add: dep_ids_def dest!: map_of_SomeD intro!: bexI)

lemma build_step_rounds:
  assumes "build_step m items dm s = Some s'"
  shows "rounds_left dm s' < rounds_left dm s"
proof -
  from assms have ne: "bs_queue s \<noteq> []" by (auto simp add: build_step_def split: if_splits)
  then have len: "length (bs_queue s) = Suc (length (butlast (bs_queue s)))" by simp
  let ?it = "items ! last (bs_queue s)"
  show ?thesis
  proof (cases "map_of dm (it_hash ?it)")
    case None
    with assms ne show ?thesis
      by (auto simp add: build_step_def rounds_left_def Let_def len simp del: length_butlast
          split: if_splits)
  next
    case (Some deps)
    obtain dc q where r: "release m items (bs_priority s) deps (bs_depCount s) (butlast (bs_queue s)) = (dc, q)"
      by (cases "release m items (bs_priority s) deps (bs_depCount s) (butlast (bs_queue s))")
    from release_rounds [OF deps_in_dep_ids [OF Some] r]
    have "2 * potential dm dc + length q \<le> 2 * potential dm (bs_depCount s) + length (butlast (bs_queue s))" .
    with assms ne Some r show ?thesis
      by (auto simp add: build_step_def rounds_left_def Let_def len simp del: length_butlast
          split: if_splits)
  qed
qed

text \<open>The main loop of \<open>build\<close>.\<close>

function build_loop :: "miner \<Rightarrow> item list \<Rightarrow> depmap \<Rightarrow> buildstate \<Rightarrow> buildstate" where
  "build_loop m items dm s =
     (case build_step m items dm s of
        None \<Rightarrow> s
      | Some s' \<Rightarrow> build_loop m items dm s')"
  by pat_completeness auto
termination
  by (relation "measure (\<lambda>(m, items, dm, s). rounds_left dm s)")
     (auto dest: build_step_rounds)

declare build_loop.simps [simp del]

text \<open>
  \<open>Miner.prototype.build\<close>: without a mempool nothing is added; otherwise the first
  loop fills the queue and the main loop the block. The state of the attempt is its
  weight, sigops and fees on entry; \<open>bs_txs\<close> lists what \<open>build\<close> pushes after the
  coinbase. The closing \<open>attempt.refresh()\<close> and the assertion on the weight leave the
  transaction vector as it is.
\<close>

definition build :: "miner \<Rightarrow> item list option \<Rightarrow> buildstate \<Rightarrow> error + buildstate" where
  "build m mempool attempt =
     (case mempool of
        None \<Rightarrow> Inr attempt
      | Some items \<Rightarrow>
          (case init_loop m items 0 items [] (\<lambda>i. 0) [] of
             Inl e \<Rightarrow> Inl e
           | Inr (q, dc, dm) \<Rightarrow>
               Inr (build_loop m items dm
                      (attempt\<lparr>bs_queue := q, bs_priority := True, bs_depCount := dc\<rparr>))))"

section \<open>The three conditions of the sync gate\<close>

text \<open>
  The synced state as the specification words it: the chainwork of the tip is at least
  the network minimum, the tip is no older than \<open>maxTipAge\<close>, and the tip is past
  the last checkpoint when checkpoints are enabled.
\<close>

definition sync_conditions :: "env \<Rightarrow> chain \<Rightarrow> bool" where
  "sync_conditions env c =
     (e_chainwork (tip c) \<ge> pow_chainwork env
      \<and> int (e_ts (tip c)) \<ge> now env - maxTipAge env
      \<and> (checkpoints c \<longrightarrow> e_height (tip c) \<ge> lastCheckpoint env))"


section \<open>Tip moves\<close>

text \<open>
  The \<open>connect\<close> and \<open>disconnect\<close> events of an event stream, in order, each
  with its entry.
\<close>

datatype tip_move = Connected entry | Disconnected entry

fun tip_moves :: "event list \<Rightarrow> tip_move list" where
  "tip_moves [] = []"
| "tip_moves (EvConnect entry b view # evs) = Connected entry # tip_moves evs"
| "tip_moves (EvDisconnect entry b view # evs) = Disconnected entry # tip_moves evs"
| "tip_moves (ev # evs) = tip_moves evs"

section \<open>The rounds of an addition\<close>

text \<open>
  The rounds of the loop of \<open>_add\<close>, in order: for each, whether it is the first,
  the block it takes (the block given, then the orphans resolved one after the other),
  and the state in which it begins.
\<close>

function add_rounds :: "env \<Rightarrow> bool \<Rightarrow> block \<Rightarrow> chain \<Rightarrow> (bool \<times> block \<times> chain) list" where
  "add_rounds env initial b c =
     (initial, b, c) #
       (case add_step env initial b c of
          (Inl e, c1) \<Rightarrow> []
        | (Inr entry, c1) \<Rightarrow>
            (case resolveOrphan (blk_hash b) c1 of
               (None, c2) \<Rightarrow> []
             | (Some b', c2) \<Rightarrow> add_rounds env False b' c2))"
  by pat_completeness auto
termination
  apply (relation "measure (\<lambda>(env, initial, b, c). length (orphanPrev c))")
   apply simp
  apply (auto dest!: add_step_orphanPrev [OF sym] resolveOrphan_orphanPrev [OF sym])
  done

declare add_rounds.simps [simp del]

section \<open>Sequence locks as specified\<close>

text \<open>
  The inputs that take part: the disable flag unset, and the type flag unset (a lock
  by height) or set (a lock by time).
\<close>

definition height_locked :: "consensus \<Rightarrow> txinput list \<Rightarrow> txinput list" where
  "height_locked k ins =
     filter (\<lambda>i. js_and (in_sequence i) (SEQUENCE_DISABLE_FLAG k) = 0
                \<and> js_and (in_sequence i) (SEQUENCE_TYPE_FLAG k) = 0) ins"

definition time_locked :: "consensus \<Rightarrow> txinput list \<Rightarrow> txinput list" where
  "time_locked k ins =
     filter (\<lambda>i. js_and (in_sequence i) (SEQUENCE_DISABLE_FLAG k) = 0
                \<and> js_and (in_sequence i) (SEQUENCE_TYPE_FLAG k) \<noteq> 0) ins"

text \<open>The lock each input asks for, as the specification words it.\<close>

definition height_lock :: "consensus \<Rightarrow> chain \<Rightarrow> coinview \<Rightarrow> txinput \<Rightarrow> int" where
  "height_lock k c view i =
     coinHeight c view i + js_and (in_sequence i) (SEQUENCE_MASK k) - 1"

definition time_lock :: "consensus \<Rightarrow> chain \<Rightarrow> entry \<Rightarrow> coinview \<Rightarrow> txinput \<Rightarrow> int" where
  "time_lock k c prev view i =
     int (getMedianTime (the (getAncestor prev (coinHeight c view i - 1))))
     + js_and_shl (in_sequence i) (SEQUENCE_MASK k) (SEQUENCE_GRANULARITY k) - 1"

section \<open>BIP9 as specified\<close>

text \<open>
  The number of blocks of the period that ends with the entry (the entry and its
  ancestors, \<open>minerWindow\<close> in all) that signal the bit of the deployment.
\<close>

definition signalling :: "versionbits \<Rightarrow> deployment \<Rightarrow> entry \<Rightarrow> nat" where
  "signalling k d entry =
     length (filter (\<lambda>b. hasBit b (dep_bit d)) (take (nat (minerWindow k)) (ancestors_from entry)))"

text \<open>
  The transition table: the state after a period from the state before it, the median
  time past of the boundary entry and the signalling of the period. The timeout is
  tested first, as BIP9 has it.
\<close>

fun bip9_transition :: "versionbits \<Rightarrow> deployment \<Rightarrow> threshold \<Rightarrow> entry \<Rightarrow> threshold" where
  "bip9_transition k d DEFINED entry =
     (if int (getMedianTime entry) \<ge> dep_timeout d then FAILED
      else if int (getMedianTime entry) \<ge> dep_startTime d then STARTED
      else DEFINED)"
| "bip9_transition k d STARTED entry =
     (if int (getMedianTime entry) \<ge> dep_timeout d then FAILED
      else if int (signalling k d entry) \<ge> activationThreshold k then LOCKED_IN
      else STARTED)"
| "bip9_transition k d LOCKED_IN entry = ACTIVE"
| "bip9_transition k d ACTIVE entry = ACTIVE"
| "bip9_transition k d FAILED entry = FAILED"

text \<open>
  The state at a boundary entry: \<open>DEFINED\<close> before the first boundary, and one
  transition per boundary from there.
\<close>

function bip9_state :: "versionbits \<Rightarrow> deployment \<Rightarrow> entry \<Rightarrow> threshold" where
  "bip9_state k d entry =
     bip9_transition k d
       (if minerWindow k \<le> 0 then DEFINED
        else (case getAncestor entry (e_height entry - minerWindow k) of
                None \<Rightarrow> DEFINED
              | Some a \<Rightarrow> bip9_state k d a))
       entry"
  by pat_completeness auto
termination
  by (relation "measure (\<lambda>(k, d, entry). size entry)") (auto dest: getAncestor_smaller)

declare bip9_state.simps [simp del]

text \<open>
  The state for the block after \<open>prev\<close>: the state at the last boundary entry at or
  below \<open>prev\<close>, the entry whose height plus one is a multiple of the window.
\<close>

definition boundary :: "versionbits \<Rightarrow> entry \<Rightarrow> entry option" where
  "boundary k p =
     (if (e_height p + 1) mod minerWindow k = 0 then Some p
      else getAncestor p (e_height p - (e_height p + 1) mod minerWindow k))"

definition bip9_at :: "versionbits \<Rightarrow> deployment \<Rightarrow> entry option \<Rightarrow> threshold" where
  "bip9_at k d prev =
     (case prev of
        None \<Rightarrow> DEFINED
      | Some p \<Rightarrow> (case boundary k p of None \<Rightarrow> DEFINED | Some b \<Rightarrow> bip9_state k d b))"

text \<open>
  A chain as \<open>ChainEntry.fromBlock\<close> and \<open>Chain.verify\<close> build it: every entry is
  one above its parent, no height is negative, and every block is later than the median
  time past of its parent (\<open>time-too-old\<close> otherwise).
\<close>

fun valid_chain :: "entry \<Rightarrow> bool" where
  "valid_chain (Entry h pb v t b ht cw pr) =
     (0 \<le> ht \<and>
      (case pr of
         None \<Rightarrow> True
       | Some p \<Rightarrow> e_height p = ht - 1 \<and> getMedianTime p < t \<and> valid_chain p))"

text \<open>The state before the period of a boundary entry.\<close>

definition pre_state :: "versionbits \<Rightarrow> deployment \<Rightarrow> entry \<Rightarrow> threshold" where
  "pre_state k d entry =
     (if minerWindow k \<le> 0 then DEFINED
      else (case getAncestor entry (e_height entry - minerWindow k) of
              None \<Rightarrow> DEFINED
            | Some a \<Rightarrow> bip9_state k d a))"

text \<open>
  A cache agrees with the specification on a set of entries when every state it holds
  for one of them is the state of that entry.
\<close>

definition cache_ok :: "versionbits \<Rightarrow> deployment \<Rightarrow> entry set \<Rightarrow> statecache \<Rightarrow> bool" where
  "cache_ok k d S cache =
     (\<forall>x \<in> S. \<forall>s. cache (dep_bit d, e_hash x) = Some s \<longrightarrow> s = bip9_state k d x)"

text \<open>
  The entries on \<open>compute\<close> are consecutive boundaries, oldest first, and \<open>st\<close> is
  the state before the oldest.
\<close>

fun compute_ok :: "versionbits \<Rightarrow> deployment \<Rightarrow> threshold \<Rightarrow> entry list \<Rightarrow> bool" where
  "compute_ok k d st [] = True"
| "compute_ok k d st (b # rest) = (st = pre_state k d b \<and> compute_ok k d (bip9_state k d b) rest)"


section \<open>Dependency order as specified\<close>

text \<open>
  The hashes an item spends that are transactions of the mempool, one per input, and
  those of them not yet in the block.
\<close>

definition mempool_parents :: "item list \<Rightarrow> nat \<Rightarrow> hash list" where
  "mempool_parents items i = filter (\<lambda>h. h \<in> set (map it_hash items)) (it_prevouts (items ! i))"

definition block_hashes :: "item list \<Rightarrow> nat list \<Rightarrow> hash list" where
  "block_hashes items txs = map (\<lambda>i. it_hash (items ! i)) txs"

definition pending_parents :: "item list \<Rightarrow> nat list \<Rightarrow> nat \<Rightarrow> hash list" where
  "pending_parents items txs i = filter (\<lambda>h. h \<notin> set (block_hashes items txs)) (mempool_parents items i)"

text \<open>
  A transaction vector is in dependency order when every transaction of the mempool
  that a transaction spends stands before it.
\<close>

definition dependency_order :: "item list \<Rightarrow> nat list \<Rightarrow> bool" where
  "dependency_order items txs =
     (\<forall>k < length txs. set (mempool_parents items (txs ! k)) \<subseteq> set (block_hashes items (take k txs)))"

text \<open>
  The parents of an item within the mempool; its ancestors are the transitive closure.
\<close>

definition parent_rel :: "item list \<Rightarrow> (nat \<times> nat) set" where
  "parent_rel items =
     {(a, b). a < length items \<and> b < length items
              \<and> it_hash (items ! a) \<in> set (it_prevouts (items ! b))}"

text \<open>
  What the first loop leaves in \<open>depMap\<close>: under each hash, each item as often as it
  spends that hash.
\<close>

definition depmap_ok :: "item list \<Rightarrow> nat \<Rightarrow> depmap \<Rightarrow> bool" where
  "depmap_ok items n dm =
     (\<forall>h. set (deps_of dm h) \<subseteq> {..<n}
          \<and> (\<forall>j < n. count_list (deps_of dm h) j = count_list (mempool_parents items j) h))"

text \<open>The invariant of the main loop.\<close>

definition build_inv :: "item list \<Rightarrow> buildstate \<Rightarrow> bool" where
  "build_inv items s =
     (distinct (bs_queue s @ bs_txs s)
      \<and> (\<forall>i \<in> set (bs_queue s) \<union> set (bs_txs s). i < length items \<and> bs_depCount s i = 0)
      \<and> (\<forall>i < length items. bs_depCount s i = int (length (pending_parents items (bs_txs s) i)))
      \<and> dependency_order items (bs_txs s))"

text \<open>The states in which the rounds of the main loop begin, the last being the result.\<close>

function loop_rounds :: "miner \<Rightarrow> item list \<Rightarrow> depmap \<Rightarrow> buildstate \<Rightarrow> buildstate list" where
  "loop_rounds m items dm s =
     s # (case build_step m items dm s of
            None \<Rightarrow> []
          | Some s' \<Rightarrow> loop_rounds m items dm s')"
  by pat_completeness auto
termination
  by (relation "measure (\<lambda>(m, items, dm, s). rounds_left dm s)")
     (auto dest: build_step_rounds)

declare loop_rounds.simps [simp del]

definition build_rounds :: "miner \<Rightarrow> item list \<Rightarrow> buildstate \<Rightarrow> buildstate list" where
  "build_rounds m items attempt =
     (case init_loop m items 0 items [] (\<lambda>i. 0) [] of
        Inl e \<Rightarrow> []
      | Inr (q, dc, dm) \<Rightarrow>
          loop_rounds m items dm
            (attempt\<lparr>bs_queue := q, bs_priority := True, bs_depCount := dc\<rparr>))"

text \<open>
  Every ancestor of a transaction of the vector stands before it.
\<close>

definition ancestors_first :: "item list \<Rightarrow> nat list \<Rightarrow> bool" where
  "ancestors_first items txs =
     (\<forall>k < length txs. \<forall>a. (a, txs ! k) \<in> (parent_rel items)\<^sup>+ \<longrightarrow> a \<in> set (take k txs))"

text \<open>
  The tests for which a round drops the item it took off the queue: finality, witness,
  weight, and sigops.
\<close>

definition skips :: "miner \<Rightarrow> buildstate \<Rightarrow> item \<Rightarrow> bool" where
  "skips m s it =
     (\<not> it_final it
      \<or> (\<not> attempt_witness m \<and> it_hasWitness it)
      \<or> bs_weight s + it_weight it > maxWeight m
      \<or> bs_sigops s + it_sigops it > maxSigops m)"

text \<open>
  No item dropped in one of the rounds, and no descendant of such an item, is in the
  vector.
\<close>

definition skipped_excluded :: "miner \<Rightarrow> item list \<Rightarrow> buildstate list \<Rightarrow> nat list \<Rightarrow> bool" where
  "skipped_excluded m items rounds txs =
     (\<forall>t \<in> set rounds. bs_queue t \<noteq> [] \<and> skips m t (items ! last (bs_queue t)) \<longrightarrow>
        last (bs_queue t) \<notin> set txs
        \<and> (\<forall>b. (last (bs_queue t), b) \<in> (parent_rel items)\<^sup>+ \<longrightarrow> b \<notin> set txs))"

text \<open>An item that is neither queued nor in the block, and waits for no parent.\<close>

definition left_out :: "item list \<Rightarrow> buildstate \<Rightarrow> nat \<Rightarrow> bool" where
  "left_out items s i = (i < length items \<and> bs_depCount s i = 0
                    \<and> i \<notin> set (bs_queue s) \<and> i \<notin> set (bs_txs s))"


section \<open>An example chain\<close>

text \<open>
  A chain that holds only its genesis entry, and an environment in which every block
  has work 1, a block with \<open>bits = 0\<close> fails the proof-of-work check, and the
  contextual checks reject a block with a timestamp too far ahead (malleated) or too
  far behind its parent (not malleated), and the input checks reject a block of
  version 0 (a missing input).
\<close>

definition ex_genesis :: entry where
  "ex_genesis = Entry ''g'' ''0'' 1 100 7 0 1 None"

definition ex_dstate :: dstate where
  "ex_dstate = \<lparr>ds_flags = 0, ds_lockFlags = 0, ds_bip34 = False\<rparr>"

definition ex_block :: "hash \<Rightarrow> hash \<Rightarrow> int \<Rightarrow> block" where
  "ex_block h p sz = \<lparr>blk_hash = h, blk_prevBlock = p, blk_version = 1, blk_ts = 100,
     blk_bits = 7, blk_size = sz, blk_coinbaseHeight = - 1, blk_memory = False,
     blk_mutable = False, blk_valid = None\<rparr>"

definition ex_db :: chaindb where
  "ex_db = \<lparr>db_entries = [''g'' \<mapsto> ex_genesis], db_blocks = Map.empty, db_main = [''g'']\<rparr>"

definition ex_chain :: chain where
  "ex_chain = \<lparr>tip = ex_genesis, height = 0, synced = False, checkpoints = True,
     ch_total = 0, state = ex_dstate, invalid = [], orphanMap = [], orphanPrev = [],
     orphanCount = 0, orphanSize = 0, db = ex_db, pending = [], events = []\<rparr>"

definition ex_block_verify :: "block \<Rightarrow> (string \<times> int) option" where
  "ex_block_verify b = (if blk_bits b = 0 then Some (''high-hash'', 50) else None)"

definition ex_contextual :: "block \<Rightarrow> entry \<Rightarrow> error + dstate" where
  "ex_contextual b prev =
     (if blk_ts b > 5000 then Inl (VerifyError ''invalid'' ''time-too-new'' 0 True)
      else if blk_ts b \<le> e_ts prev - 50 then Inl (VerifyError ''invalid'' ''time-too-old'' 0 False)
      else Inr ex_dstate)"

definition ex_inputs :: "chaindb \<Rightarrow> block \<Rightarrow> entry \<Rightarrow> dstate \<Rightarrow> error + coinview" where
  "ex_inputs d b prev st =
     (if blk_version b = 0
      then Inl (VerifyError ''invalid'' ''bad-txns-inputs-missingorspent'' 100 False)
      else Inr [])"

definition ex_env :: env where
  "ex_env = \<lparr>genesis_hash = ''g'', checkpointMap = Map.empty, lastCheckpoint = 0,
     maxTipAge = 50, pow_chainwork = 1, now = 1000, opt_spv = False, orphanLimit = 20971520,
     getProof = (\<lambda>bits. 1),
     block_verify = ex_block_verify,
     contextual_checks = ex_contextual,
     duplicates_check = (\<lambda>d b p s. None),
     inputs_check = ex_inputs,
     getDeployments = (\<lambda>b p. Inr ex_dstate),
     toBlock = (\<lambda>b. Some b),
     toHeaders = (\<lambda>e. ex_block (e_hash e) (e_prevBlock e) 80),
     undo_view = (\<lambda>e b. [])\<rparr>"

lemmas ex_defs = ex_genesis_def ex_dstate_def ex_block_def ex_db_def ex_chain_def
  ex_block_verify_def ex_contextual_def ex_inputs_def ex_env_def

lemmas add_defs = add_def add_nolock_def add_step_def add_guards_def add_prev_def add_place_def
  seenOrphan_hash_def hasInvalid_def hasPending_def lru_has_def lru_set_def db_hasEntry_def
  storeOrphan_def resolveOrphan_def pruneOrphans_def verifyCheckpoint_def fromBlock_def
  saveAlternate_def setBestChain_def connect_best_def verify_def verifyContext_def
  verifyDuplicates_def verifyInputs_def on_verify_error_def db_save_def finish_def
  maybeSync_def hasChainwork_def duplicate_error_def emit_def setInvalid_def purgeOrphans_def
  abstractblock_verify_def new_VerifyResult_def new_object_def Let_def



text \<open>Six blocks of four million bytes each, none with a known parent.\<close>

definition ex_orphans :: "block list" where
  "ex_orphans = [ex_block ''o1'' ''p1'' 4000000, ex_block ''o2'' ''p2'' 4000000,
     ex_block ''o3'' ''p3'' 4000000, ex_block ''o4'' ''p4'' 4000000,
     ex_block ''o5'' ''p5'' 4000000, ex_block ''o6'' ''p6'' 4000000]"

definition add_all :: "env \<Rightarrow> block list \<Rightarrow> chain \<Rightarrow> chain" where
  "add_all env bs c = foldl (\<lambda>s b. snd (add env b s)) c bs"

text \<open>Blocks and entries of two branches on the genesis block.\<close>

definition ex_env_spv :: env where
  "ex_env_spv = ex_env\<lparr>opt_spv := True\<rparr>"

definition ex_a1 :: block where "ex_a1 = ex_block ''a1'' ''g'' 285"
definition ex_a2 :: block where "ex_a2 = ex_block ''a2'' ''a1'' 285"
definition ex_b1 :: block where "ex_b1 = ex_block ''b1'' ''g'' 285"
definition ex_b2 :: block where "ex_b2 = ex_block ''b2'' ''b1'' 285"
definition ex_b3 :: block where "ex_b3 = ex_block ''b3'' ''b2'' 285"
definition ex_x2 :: block where "ex_x2 = (ex_block ''x2'' ''b1'' 285)\<lparr>blk_version := 0\<rparr>"
definition ex_x3 :: block where "ex_x3 = ex_block ''x3'' ''x2'' 285"
definition ex_late :: block where "ex_late = (ex_block ''l1'' ''g'' 285)\<lparr>blk_ts := 9000\<rparr>"
definition ex_early :: block where "ex_early = (ex_block ''e1'' ''g'' 285)\<lparr>blk_ts := 10\<rparr>"
definition ex_z2 :: block where "ex_z2 = (ex_block ''z2'' ''a1'' 285)\<lparr>blk_version := 0\<rparr>"
definition ex_y3 :: block where "ex_y3 = (ex_block ''y3'' ''b2'' 285)\<lparr>blk_version := 0\<rparr>"
definition ex_a3 :: block where "ex_a3 = ex_block ''a3'' ''a2'' 285"
definition ex_x4 :: block where "ex_x4 = ex_block ''x4'' ''x3'' 285"

definition ex_entry :: "block \<Rightarrow> entry \<Rightarrow> entry" where
  "ex_entry b prev = fromBlock ex_env b prev"

definition ex_A1 :: entry where "ex_A1 = ex_entry ex_a1 ex_genesis"
definition ex_A2 :: entry where "ex_A2 = ex_entry ex_a2 ex_A1"
definition ex_B1 :: entry where "ex_B1 = ex_entry ex_b1 ex_genesis"
definition ex_B2 :: entry where "ex_B2 = ex_entry ex_b2 ex_B1"
definition ex_B3 :: entry where "ex_B3 = ex_entry ex_b3 ex_B2"
definition ex_X2 :: entry where "ex_X2 = ex_entry ex_x2 ex_B1"
definition ex_X3 :: entry where "ex_X3 = ex_entry ex_x3 ex_X2"
definition ex_Z2 :: entry where "ex_Z2 = ex_entry ex_z2 ex_A1"
definition ex_Y3 :: entry where "ex_Y3 = ex_entry ex_y3 ex_B2"
definition ex_A3 :: entry where "ex_A3 = ex_entry ex_a3 ex_A2"
definition ex_X4 :: entry where "ex_X4 = ex_entry ex_x4 ex_X3"

lemmas ex_block_defs = ex_a1_def ex_a2_def ex_b1_def ex_b2_def ex_b3_def ex_x2_def ex_x3_def
  ex_late_def ex_early_def ex_entry_def ex_A1_def ex_A2_def ex_B1_def ex_B2_def ex_B3_def
  ex_X2_def ex_X3_def ex_env_spv_def ex_z2_def ex_y3_def ex_a3_def ex_x4_def ex_Z2_def
  ex_Y3_def ex_A3_def ex_X4_def

lemmas reorg_defs = reorganize_def reorganizeSPV_def reset_nolock_def db_reset_def
  getDeploymentState_def disconnect_def reconnect_def load_block_def getPrevious_def
  db_disconnect_def db_reconnect_def


text \<open>Full node: a1, a2 the main chain; b1 and a child of b1 alternates.\<close>

definition ex_fork_chain :: chain where
  "ex_fork_chain = add_all ex_env [ex_a1, ex_a2, ex_b1, ex_b2] ex_chain"

definition ex_bad_fork_chain :: chain where
  "ex_bad_fork_chain = add_all ex_env [ex_a1, ex_a2, ex_b1, ex_x2] ex_chain"

definition ex_a1_chain :: chain where
  "ex_a1_chain = add_all ex_env [ex_a1] ex_chain"

text \<open>
  Full node: a1, a2, a3 the main chain; b1 and x2 alternates, x2 with a missing input;
  x4 an orphan that waits for x3.
\<close>

definition ex_orphan_fork_chain :: chain where
  "ex_orphan_fork_chain = add_all ex_env [ex_a1, ex_a2, ex_a3, ex_b1, ex_x2, ex_x4] ex_chain"

text \<open>
  The states that the first round of the addition of x3 to that chain leaves, and in
  which the second round begins: x3 is saved as an alternate, and the orphan x4 is taken
  out of the store.
\<close>

definition ex_round1_chain :: chain where
  "ex_round1_chain = snd (add_step ex_env True ex_x3 ex_orphan_fork_chain)"

definition ex_round2_chain :: chain where
  "ex_round2_chain = snd (resolveOrphan ''x3'' ex_round1_chain)"

lemmas ex_chain_defs = ex_fork_chain_def ex_bad_fork_chain_def ex_a1_chain_def add_all_def
  ex_orphan_fork_chain_def ex_round1_chain_def ex_round2_chain_def

definition ex_missing_input :: error where
  "ex_missing_input = VerifyError ''invalid'' ''bad-txns-inputs-missingorspent'' 100 False"

definition ex_too_old :: error where
  "ex_too_old = VerifyError ''invalid'' ''time-too-old'' 0 False"

definition ex_too_new :: error where
  "ex_too_new = VerifyError ''invalid'' ''time-too-new'' 0 True"

lemmas ex_error_defs = ex_missing_input_def ex_too_old_def ex_too_new_def

text \<open>
  The constants of BIP68, and a transaction of version 2 with three inputs: one with the
  disable flag, one locked by height (2 blocks on a coin of height 1), one locked by
  time (2 units of 512 seconds on a coin of height 2).
\<close>

definition ex_consensus :: consensus where
  "ex_consensus = \<lparr>SEQUENCE_MASK = 0xFFFF, SEQUENCE_GRANULARITY = 9,
     SEQUENCE_DISABLE_FLAG = 0x80000000, SEQUENCE_TYPE_FLAG = 0x400000, VERIFY_SEQUENCE = 1\<rparr>"

definition ex_tx :: tx where
  "ex_tx = \<lparr>tx_version = 2, tx_isCoinbase = False,
     tx_inputs = [\<lparr>in_prevout = (''t0'', 0), in_sequence = 0xFFFFFFFF\<rparr>,
                  \<lparr>in_prevout = (''t1'', 0), in_sequence = 2\<rparr>,
                  \<lparr>in_prevout = (''t2'', 0), in_sequence = 0x400002\<rparr>]\<rparr>"

definition ex_view :: coinview where
  "ex_view = [((''t1'', 0), 1), ((''t2'', 0), 2)]"

definition ex_chain_at :: "entry \<Rightarrow> chain" where
  "ex_chain_at e = ex_chain\<lparr>tip := e, height := e_height e\<rparr>"

text \<open>
  A chain of seven entries for a window of two blocks and a threshold of two: the
  median time passes the start time at the first boundary, and the blocks of the second
  period signal bit 0.
\<close>

definition ex_bits :: versionbits where
  "ex_bits = \<lparr>minerWindow = 2, activationThreshold = 2\<rparr>"

definition ex_deployment :: deployment where
  "ex_deployment = \<lparr>dep_bit = 0, dep_startTime = 105, dep_timeout = 1000\<rparr>"

definition ex_v0 :: entry where "ex_v0 = Entry ''v0'' ''0'' 1 100 7 0 1 None"
definition ex_v1 :: entry where "ex_v1 = Entry ''v1'' ''v0'' 1 110 7 1 2 (Some ex_v0)"
definition ex_v2 :: entry where "ex_v2 = Entry ''v2'' ''v1'' 0x20000001 120 7 2 3 (Some ex_v1)"
definition ex_v3 :: entry where "ex_v3 = Entry ''v3'' ''v2'' 0x20000001 130 7 3 4 (Some ex_v2)"
definition ex_v4 :: entry where "ex_v4 = Entry ''v4'' ''v3'' 1 140 7 4 5 (Some ex_v3)"
definition ex_v5 :: entry where "ex_v5 = Entry ''v5'' ''v4'' 1 150 7 5 6 (Some ex_v4)"
definition ex_v6 :: entry where "ex_v6 = Entry ''v6'' ''v5'' 1 160 7 6 7 (Some ex_v5)"

lemmas ex_v_defs = ex_v0_def ex_v1_def ex_v2_def ex_v3_def ex_v4_def ex_v5_def ex_v6_def
  ex_bits_def ex_deployment_def


definition ex_item :: "hash \<Rightarrow> hash list \<Rightarrow> bool \<Rightarrow> int \<Rightarrow> item" where
  "ex_item h prevs final prio =
     \<lparr>it_hash = h, it_prevouts = prevs, it_isCoinbase = False, it_final = final,
      it_hasWitness = False, it_weight = 400, it_sigops = 1, it_fee = 1000,
      it_priority = prio, it_rate = 10, it_free = False\<rparr>"

text \<open>
  A mempool of five: \<open>t1\<close> spends \<open>t0\<close>, \<open>t2\<close> spends \<open>t1\<close> twice and \<open>t0\<close>,
  \<open>t3\<close> is not final, and \<open>t4\<close> spends \<open>t3\<close> and \<open>t0\<close>.
\<close>

definition ex_pool :: "item list" where
  "ex_pool =
     [ex_item ''t0'' [''c0''] True 10,
      ex_item ''t1'' [''t0''] True 30,
      ex_item ''t2'' [''t1'', ''t0'', ''t1''] True 5,
      ex_item ''t3'' [''c1''] False 20,
      ex_item ''t4'' [''t3'', ''t0''] True 40]"

definition ex_miner :: miner where
  "ex_miner =
     \<lparr>maxWeight = 4000000, maxSigops = 80000, priorityWeight = 5000, minPriority = 0,
      minWeight = 0, attempt_witness = False,
      binarySearch = (\<lambda>cmp xs x. length (takeWhile (\<lambda>y. cmp y x < 0) xs))\<rparr>"

definition ex_attempt :: buildstate where
  "ex_attempt =
     \<lparr>bs_queue = [], bs_priority = True, bs_depCount = (\<lambda>i. 0), bs_weight = 4000,
      bs_sigops = 400, bs_fees = 0, bs_txs = []\<rparr>"

lemmas ex_miner_defs = ex_item_def ex_pool_def ex_miner_def ex_attempt_def

lemmas build_defs = build_def build_step_def queue_push_def deps_of_def cmpPriority_def
  cmpRate_def Let_def


section \<open>Effects of the operations\<close>









lemma tip_moves_append [simp]: "tip_moves (xs @ ys) = tip_moves xs @ tip_moves ys"
  by (induction xs rule: tip_moves.induct) simp_all

lemma collect_until_takeWhile:
  "collect_until fh e = Inr es \<Longrightarrow> es = takeWhile (\<lambda>x. e_hash x \<noteq> fh) (ancestors_from e)"
  by (induction fh e arbitrary: es rule: collect_until.induct)
     (auto split: if_splits option.splits sum.splits)

lemma collect_until_error: "collect_until fh e = Inl err \<Longrightarrow> \<not> isVerifyError err"
  by (induction fh e rule: collect_until.induct)
     (auto split: if_splits option.splits sum.splits)

lemma findFork_lower_error: "findFork_lower f l = Inl err \<Longrightarrow> \<not> isVerifyError err"
  by (induction f l rule: findFork_lower.induct) (auto split: if_splits option.splits)

lemma findFork_error: "findFork f l = Inl err \<Longrightarrow> \<not> isVerifyError err"
  by (induction f l rule: findFork.induct)
     (auto split: if_splits option.splits sum.splits dest: findFork_lower_error)

text \<open>What a call of \<open>disconnect\<close> leaves behind.\<close>

lemma disconnect_ok:
  assumes "disconnect env entry c = (Inr u, c')"
  shows "\<exists>b prev. e_prev entry = Some prev
           \<and> c' = emit (EvDisconnect entry b (undo_view env entry b))
                    (emit (EvTip prev)
                       (c\<lparr>db := db_disconnect (db c) entry b, tip := prev, height := e_height prev\<rparr>))"
  using assms
  by (auto simp add: disconnect_def getPrevious_def Let_def split: sum.splits option.splits)

lemma disconnect_error:
  assumes "disconnect env entry c = (Inl err, c')"
  shows "\<not> isVerifyError err"
  using assms
  by (auto simp add: disconnect_def load_block_def getPrevious_def Let_def
      split: sum.splits option.splits if_splits)

lemma disconnect_all_error:
  "disconnect_all env es c = (Inl err, c') \<Longrightarrow> \<not> isVerifyError err"
proof (induction es arbitrary: c)
  case Nil
  then show ?case by simp
next
  case (Cons x es)
  obtain r0 c0 where d: "disconnect env x c = (r0, c0)" by (cases "disconnect env x c")
  show ?case
  proof (cases r0)
    case (Inl e0)
    with Cons.prems d show ?thesis by (auto dest: disconnect_error)
  next
    case (Inr u)
    with Cons.prems d have "disconnect_all env es c0 = (Inl err, c')" by simp
    then show ?thesis by (rule Cons.IH)
  qed
qed

lemma disconnect_all_ok:
  "disconnect_all env es c = (Inr u, c') \<Longrightarrow>
     invalid c' = invalid c
     \<and> tip_moves (events c') = tip_moves (events c) @ map Disconnected es
     \<and> (es = [] \<longrightarrow> tip c' = tip c)
     \<and> (es \<noteq> [] \<longrightarrow> e_prev (last es) = Some (tip c'))"
proof (induction es arbitrary: c)
  case Nil
  then show ?case by simp
next
  case (Cons x es)
  obtain r0 c0 where d: "disconnect env x c = (r0, c0)" by (cases "disconnect env x c")
  show ?case
  proof (cases r0)
    case (Inl e0)
    with Cons.prems d show ?thesis by simp
  next
    case (Inr u0)
    with Cons.prems d have rest: "disconnect_all env es c0 = (Inr u, c')" by simp
    from d Inr obtain b prev where p: "e_prev x = Some prev"
      and c0: "c0 = emit (EvDisconnect x b (undo_view env x b))
                    (emit (EvTip prev)
                       (c\<lparr>db := db_disconnect (db c) x b, tip := prev, height := e_height prev\<rparr>))"
      using disconnect_ok by blast
    from Cons.IH [OF rest] p c0 show ?thesis by auto
  qed
qed

text \<open>What a call of \<open>reconnect\<close> leaves behind.\<close>

lemma reconnect_ok:
  assumes "reconnect env entry c = (Inr u, c')"
  shows "\<exists>b view st. c' = emit (EvConnect entry b view)
                       (emit (EvReconnect entry b)
                          (emit (EvTip entry)
                             (c\<lparr>db := db_reconnect (db c) entry b view,
                                tip := entry, height := e_height entry, state := st\<rparr>)))"
  using assms
  by (auto simp add: reconnect_def split: sum.splits option.splits prod.splits)

lemma on_verify_error_effect:
  assumes "isVerifyError err"
  shows "tip (on_verify_error err entry b c) = tip c"
    "height (on_verify_error err entry b c) = height c"
    "db (on_verify_error err entry b c) = db c"
    "tip_moves (events (on_verify_error err entry b c)) = tip_moves (events c)"
    "invalid (on_verify_error err entry b c)
       = (if malleated err then invalid c else lru_set 100 (invalid c) (e_hash entry))"
  using assms by (simp_all add: on_verify_error_def)

lemma load_block_error: "load_block env c entry = Inl err \<Longrightarrow> \<not> isVerifyError err"
  by (auto simp add: load_block_def split: option.splits if_splits)

lemma reconnect_verify_error:
  assumes "reconnect env entry c = (Inl err, c')" "isVerifyError err"
  shows "\<exists>b prev b1. load_block env c entry = Inr b \<and> e_prev entry = Some prev
           \<and> verifyContext env c b prev = (Inl err, b1)
           \<and> c' = on_verify_error err entry b1 c"
  using assms
  by (auto simp add: reconnect_def getPrevious_def dest: load_block_error
      split: sum.splits option.splits prod.splits if_splits)

lemma reconnect_all_ok:
  "reconnect_all env es c = (Inr u, c') \<Longrightarrow>
     invalid c' = invalid c
     \<and> tip_moves (events c') = tip_moves (events c) @ map Connected es
     \<and> tip c' = (if es = [] then tip c else last es)"
proof (induction es arbitrary: c)
  case Nil
  then show ?case by simp
next
  case (Cons x es)
  obtain r0 c0 where d: "reconnect env x c = (r0, c0)" by (cases "reconnect env x c")
  show ?case
  proof (cases r0)
    case (Inl e0)
    with Cons.prems d show ?thesis by simp
  next
    case (Inr u0)
    with Cons.prems d have rest: "reconnect_all env es c0 = (Inr u, c')" by simp
    from d Inr obtain b view st where
      c0: "c0 = emit (EvConnect x b view) (emit (EvReconnect x b) (emit (EvTip x)
             (c\<lparr>db := db_reconnect (db c) x b view, tip := x, height := e_height x, state := st\<rparr>)))"
      using reconnect_ok by blast
    from Cons.IH [OF rest] c0 show ?thesis by auto
  qed
qed

lemma reconnect_all_verify_error:
  "reconnect_all env es c = (Inl err, c') \<Longrightarrow> isVerifyError err \<Longrightarrow>
     \<exists>reconnected x rest cx.
        es = reconnected @ x # rest
        \<and> reconnect_all env reconnected c = (Inr (), cx)
        \<and> reconnect env x cx = (Inl err, c')
        \<and> tip c' = (if reconnected = [] then tip c else last reconnected)
        \<and> invalid c' = (if malleated err then invalid c else lru_set 100 (invalid c) (e_hash x))
        \<and> tip_moves (events c') = tip_moves (events c) @ map Connected reconnected"
proof (induction es arbitrary: c)
  case Nil
  then show ?case by simp
next
  case (Cons y es)
  obtain r0 c0 where d: "reconnect env y c = (r0, c0)" by (cases "reconnect env y c")
  show ?case
  proof (cases r0)
    case (Inl e0)
    with Cons.prems d have e0: "e0 = err" "c0 = c'" by simp_all
    with d Inl have f: "reconnect env y c = (Inl err, c')" by simp
    with Cons.prems(2) obtain b where
      "c' = on_verify_error err y b c" using reconnect_verify_error by metis
    with Cons.prems(2) have "tip c' = tip c"
      "invalid c' = (if malleated err then invalid c else lru_set 100 (invalid c) (e_hash y))"
      "tip_moves (events c') = tip_moves (events c)"
      by (simp_all add: on_verify_error_effect)
    with f have "y # es = [] @ y # es
        \<and> reconnect_all env [] c = (Inr (), c)
        \<and> reconnect env y c = (Inl err, c')
        \<and> tip c' = (if ([]::entry list) = [] then tip c else last [])
        \<and> invalid c' = (if malleated err then invalid c else lru_set 100 (invalid c) (e_hash y))
        \<and> tip_moves (events c') = tip_moves (events c) @ map Connected []" by simp
    then show ?thesis by blast
  next
    case (Inr u0)
    with Cons.prems d have rest: "reconnect_all env es c0 = (Inl err, c')" by simp
    from d Inr obtain b view st where
      c0: "c0 = emit (EvConnect y b view) (emit (EvReconnect y b) (emit (EvTip y)
             (c\<lparr>db := db_reconnect (db c) y b view, tip := y, height := e_height y, state := st\<rparr>)))"
      using reconnect_ok by blast
    from Cons.IH [OF rest Cons.prems(2)] obtain reconnected x rest' cx where
      r: "es = reconnected @ x # rest'"
        "reconnect_all env reconnected c0 = (Inr (), cx)"
        "reconnect env x cx = (Inl err, c')"
        "tip c' = (if reconnected = [] then tip c0 else last reconnected)"
        "invalid c' = (if malleated err then invalid c0 else lru_set 100 (invalid c0) (e_hash x))"
        "tip_moves (events c') = tip_moves (events c0) @ map Connected reconnected"
      by blast
    from r(2) d Inr have ra: "reconnect_all env (y # reconnected) c = (Inr (), cx)" by simp
    from r c0 have "y # es = (y # reconnected) @ x # rest'
        \<and> tip c' = (if y # reconnected = [] then tip c else last (y # reconnected))
        \<and> invalid c' = (if malleated err then invalid c else lru_set 100 (invalid c) (e_hash x))
        \<and> tip_moves (events c') = tip_moves (events c) @ map Connected (y # reconnected)"
      by auto
    with ra r(3) show ?thesis by blast
  qed
qed

lemma lru_set_has: "lru_has (lru_set 100 xs h) h"
  by (simp add: lru_has_def lru_set_def)

lemma collect_until_end:
  "collect_until fh e = Inr es \<Longrightarrow>
     (es = [] \<longrightarrow> e_hash e = fh)
     \<and> (es \<noteq> [] \<longrightarrow> (\<exists>p. e_prev (last es) = Some p \<and> e_hash p = fh))"
proof (induction fh e arbitrary: es rule: collect_until.induct)
  case (1 fh h pb v t b ht cw pr)
  show ?case
  proof (cases "h = fh")
    case True
    with "1.prems" show ?thesis by simp
  next
    case False
    with "1.prems" obtain p es' where p: "pr = Some p" "collect_until fh p = Inr es'"
      and es: "es = Entry h pb v t b ht cw pr # es'"
      by (auto split: option.splits sum.splits)
    from "1.IH" [OF False p] have
      ih: "(es' = [] \<longrightarrow> e_hash p = fh)
           \<and> (es' \<noteq> [] \<longrightarrow> (\<exists>q. e_prev (last es') = Some q \<and> e_hash q = fh))" .
    show ?thesis
    proof (cases "es' = []")
      case True
      with ih es p show ?thesis by simp
    next
      case False
      with ih es show ?thesis by simp
    qed
  qed
qed


lemma saveAlternate_error:
  "saveAlternate env entry b prev c = (Inl err, c') \<Longrightarrow>
     \<exists>b1. verify env c b prev = (Inl err, b1) \<and> c' = on_verify_error err entry b1 c"
  by (auto simp add: saveAlternate_def split: sum.splits prod.splits)


lemma connect_best_error:
  "connect_best env entry b prev c = (Inl err, c') \<Longrightarrow>
     \<exists>b1. verifyContext env c b prev = (Inl err, b1) \<and> c' = on_verify_error err entry b1 c"
  by (auto simp add: connect_best_def split: sum.splits prod.splits)

lemma reorganize_ok:
  assumes "reorganize env competitor b c = (Inr u, c')"
  shows "\<exists>fork. findFork (tip c) competitor = Inr fork
     \<and> invalid c' = invalid c
     \<and> tip_moves (events c') = tip_moves (events c)
          @ map Disconnected (takeWhile (\<lambda>x. e_hash x \<noteq> e_hash fork) (ancestors_from (tip c)))
          @ map Connected (rev (tl (takeWhile (\<lambda>x. e_hash x \<noteq> e_hash fork) (ancestors_from competitor))))"
proof -
  from assms obtain fork ds cs c1 c2 where
    f: "findFork (tip c) competitor = Inr fork"
    and ds: "collect_until (e_hash fork) (tip c) = Inr ds"
    and cs: "collect_until (e_hash fork) competitor = Inr cs"
    and d: "disconnect_all env ds c = (Inr (), c1)"
    and r: "reconnect_all env (rev (tl cs)) c1 = (Inr (), c2)"
    and c': "c' = emit (EvReorganize b (e_height (tip c)) (e_hash (tip c))) c2"
    by (auto simp add: reorganize_def split: sum.splits prod.splits)
  from disconnect_all_ok [OF d] reconnect_all_ok [OF r] c'
    collect_until_takeWhile [OF ds] collect_until_takeWhile [OF cs] f
  show ?thesis by simp
qed

lemma reorganize_verify_error:
  assumes "reorganize env competitor b c = (Inl err, c')" "isVerifyError err"
  shows "\<exists>fork reconnected x rest c1 cx.
     findFork (tip c) competitor = Inr fork
     \<and> rev (tl (takeWhile (\<lambda>y. e_hash y \<noteq> e_hash fork) (ancestors_from competitor)))
         = reconnected @ x # rest
     \<and> disconnect_all env (takeWhile (\<lambda>y. e_hash y \<noteq> e_hash fork) (ancestors_from (tip c))) c
         = (Inr (), c1)
     \<and> reconnect_all env reconnected c1 = (Inr (), cx)
     \<and> reconnect env x cx = (Inl err, c')
     \<and> tip_moves (events c') = tip_moves (events c)
          @ map Disconnected (takeWhile (\<lambda>y. e_hash y \<noteq> e_hash fork) (ancestors_from (tip c)))
          @ map Connected reconnected
     \<and> (reconnected = [] \<longrightarrow> e_hash (tip c') = e_hash fork)
     \<and> (reconnected \<noteq> [] \<longrightarrow> tip c' = last reconnected)
     \<and> invalid c' = (if malleated err then invalid c else lru_set 100 (invalid c) (e_hash x))"
proof -
  from assms(1) have "\<exists>fork. findFork (tip c) competitor = Inr fork"
    using assms(2) by (auto simp add: reorganize_def split: sum.splits dest: findFork_error)
  then obtain fork where f: "findFork (tip c) competitor = Inr fork" by blast
  from assms f obtain ds where ds: "collect_until (e_hash fork) (tip c) = Inr ds"
    by (auto simp add: reorganize_def split: sum.splits dest: collect_until_error)
  from assms f ds obtain cs where cs: "collect_until (e_hash fork) competitor = Inr cs"
    by (auto simp add: reorganize_def split: sum.splits dest: collect_until_error)
  obtain r1 c1 where d: "disconnect_all env ds c = (r1, c1)" by (cases "disconnect_all env ds c")
  from assms f ds cs d obtain u where r1: "r1 = Inr u"
    by (cases r1) (auto simp add: reorganize_def dest: disconnect_all_error)
  from assms f ds cs d r1 have r: "reconnect_all env (rev (tl cs)) c1 = (Inl err, c')"
    by (auto simp add: reorganize_def split: sum.splits prod.splits)
  from d r1 have d': "disconnect_all env ds c = (Inr (), c1)" by simp
  from disconnect_all_ok [OF d'] have
    inv1: "invalid c1 = invalid c"
    and ev1: "tip_moves (events c1) = tip_moves (events c) @ map Disconnected ds"
    and t0: "ds = [] \<longrightarrow> tip c1 = tip c"
    and t1: "ds \<noteq> [] \<longrightarrow> e_prev (last ds) = Some (tip c1)" by simp_all
  from collect_until_end [OF ds] t0 t1 have tipc1: "e_hash (tip c1) = e_hash fork"
    by (cases "ds = []") auto
  from reconnect_all_verify_error [OF r assms(2)] obtain reconnected x rest cx where
    e: "rev (tl cs) = reconnected @ x # rest"
      "reconnect_all env reconnected c1 = (Inr (), cx)"
      "reconnect env x cx = (Inl err, c')"
      "tip c' = (if reconnected = [] then tip c1 else last reconnected)"
      "invalid c' = (if malleated err then invalid c1 else lru_set 100 (invalid c1) (e_hash x))"
      "tip_moves (events c') = tip_moves (events c1) @ map Connected reconnected"
    by blast
  note dsT = collect_until_takeWhile [OF ds] and csT = collect_until_takeWhile [OF cs]
  from e(1) csT have p1: "rev (tl (takeWhile (\<lambda>y. e_hash y \<noteq> e_hash fork) (ancestors_from competitor)))
         = reconnected @ x # rest" by simp
  from d' dsT have p2: "disconnect_all env (takeWhile (\<lambda>y. e_hash y \<noteq> e_hash fork) (ancestors_from (tip c))) c
         = (Inr (), c1)" by simp
  from e(6) ev1 dsT have p3: "tip_moves (events c') = tip_moves (events c)
          @ map Disconnected (takeWhile (\<lambda>y. e_hash y \<noteq> e_hash fork) (ancestors_from (tip c)))
          @ map Connected reconnected" by simp
  from e(4) tipc1 have p4: "reconnected = [] \<longrightarrow> e_hash (tip c') = e_hash fork"
    and p5: "reconnected \<noteq> [] \<longrightarrow> tip c' = last reconnected" by simp_all
  from e(5) inv1 have p6: "invalid c' = (if malleated err then invalid c else lru_set 100 (invalid c) (e_hash x))"
    by simp
  from f p1 p2 e(2) e(3) p3 p4 p5 p6 show ?thesis by blast
qed

lemma reset_nolock_error:
  "opt_spv env \<Longrightarrow> reset_nolock env h silent c = (Inl err, c') \<Longrightarrow> \<not> isVerifyError err"
  by (auto simp add: reset_nolock_def db_reset_def getDeploymentState_def Let_def
      split: sum.splits option.splits prod.splits if_splits)

lemma reorganizeSPV_error:
  "opt_spv env \<Longrightarrow> reorganizeSPV env competitor b c = (Inl err, c') \<Longrightarrow> \<not> isVerifyError err"
  by (auto simp add: reorganizeSPV_def split: sum.splits prod.splits
      dest: findFork_error collect_until_error reset_nolock_error)

lemma maybeSync_frame [simp]:
  "tip (maybeSync env c) = tip c" "height (maybeSync env c) = height c"
  "db (maybeSync env c) = db c" "invalid (maybeSync env c) = invalid c"
  by (simp_all add: maybeSync_def Let_def)

lemma purgeOrphans_frame [simp]:
  "tip (purgeOrphans c) = tip c" "height (purgeOrphans c) = height c"
  "db (purgeOrphans c) = db c" "invalid (purgeOrphans c) = invalid c"
  by (simp_all add: purgeOrphans_def)

lemma foldl_emit_frame [simp]:
  "tip (foldl (\<lambda>s x. emit (f x) s) c xs) = tip c"
  "height (foldl (\<lambda>s x. emit (f x) s) c xs) = height c"
  "db (foldl (\<lambda>s x. emit (f x) s) c xs) = db c"
  "invalid (foldl (\<lambda>s x. emit (f x) s) c xs) = invalid c"
  by (induction xs arbitrary: c) simp_all






lemma takeWhile_tl_subset:
  "set (rev (tl (takeWhile P xs))) \<subseteq> set xs"
proof -
  have "set (tl (takeWhile P xs)) \<subseteq> set (takeWhile P xs)"
    by (cases "takeWhile P xs") auto
  also have "\<dots> \<subseteq> set xs" by (metis set_takeWhileD subsetI)
  finally show ?thesis by simp
qed

lemma ancestors_from_self: "entry \<in> set (ancestors_from entry)"
  by (cases entry) simp

lemma add_from_step_error:
  "add_step env True b c = (Inl err, c') \<Longrightarrow> add env b c = (Inl err, c')"
  by (simp add: add_def add_nolock_def)

section \<open>Properties\<close>

subsection \<open>Sync gate\<close>

text \<open>
  Claim C8. Once the node is synced \<open>maybeSync\<close> changes nothing, so \<open>full\<close> is
  not emitted again. On a node that is not synced it marks the node synced and emits
  \<open>full\<close> exactly when the three conditions hold at that call. Checkpoints are
  switched off as soon as the tip of a node that is not synced has reached
  \<open>lastCheckpoint\<close>, whether or not the other two conditions hold.
\<close>

theorem maybeSync_gate:
  "(synced c \<longrightarrow> maybeSync env c = c)
   \<and> (\<not> synced c \<longrightarrow>
        synced (maybeSync env c) = sync_conditions env c
        \<and> events (maybeSync env c) = events c @ (if sync_conditions env c then [EvFull] else [])
        \<and> checkpoints (maybeSync env c) = (checkpoints c \<and> e_height (tip c) < lastCheckpoint env))"
  by (auto simp add: maybeSync_def sync_conditions_def hasChainwork_def emit_def Let_def)

theorem maybeSync_gate_witness:
  "\<not> synced (ex_chain\<lparr>tip := Entry ''t'' ''g'' 1 990 7 1 2 (Some ex_genesis)\<rparr>)
   \<and> synced (maybeSync ex_env (ex_chain\<lparr>tip := Entry ''t'' ''g'' 1 990 7 1 2 (Some ex_genesis)\<rparr>))
   \<and> events (maybeSync ex_env (ex_chain\<lparr>tip := Entry ''t'' ''g'' 1 990 7 1 2 (Some ex_genesis)\<rparr>)) = [EvFull]
   \<and> synced (maybeSync ex_env (maybeSync ex_env (ex_chain\<lparr>tip := Entry ''t'' ''g'' 1 990 7 1 2 (Some ex_genesis)\<rparr>)))"
  using maybeSync_gate [of "ex_chain\<lparr>tip := Entry ''t'' ''g'' 1 990 7 1 2 (Some ex_genesis)\<rparr>" ex_env]
    maybeSync_gate [of "maybeSync ex_env (ex_chain\<lparr>tip := Entry ''t'' ''g'' 1 990 7 1 2 (Some ex_genesis)\<rparr>)" ex_env]
  by (simp add: sync_conditions_def ex_chain_def ex_env_def ex_genesis_def)


text \<open>
  With the example chain (tip at the last checkpoint, but older than \<open>maxTipAge\<close>)
  checkpoints are switched off although the node is not synced.
\<close>

theorem maybeSync_checkpoints_early:
  "checkpoints ex_chain \<and> \<not> sync_conditions ex_env ex_chain
   \<and> \<not> synced (maybeSync ex_env ex_chain) \<and> \<not> checkpoints (maybeSync ex_env ex_chain)"
  by (simp add: maybeSync_def sync_conditions_def ex_chain_def ex_env_def ex_genesis_def hasChainwork_def)


subsection \<open>Orphan store\<close>

text \<open>
  Claim C4. The store of an orphan is followed by the throw of \<open>bad-prevblk\<close>,
  which leaves \<open>_add\<close> before \<open>pruneOrphans\<close> runs: after six orphans of four
  million bytes the store holds 24000000 bytes, above the limit of 20971520.
\<close>

theorem orphan_store_exceeds_limit:
  "orphanSize (add_all ex_env ex_orphans ex_chain) = 24000000
   \<and> sum_list (map (\<lambda>kv. blk_size (snd kv)) (orphanMap (add_all ex_env ex_orphans ex_chain))) = 24000000
   \<and> orphanLimit ex_env = 20971520
   \<and> fst (add ex_env (ex_block ''o1'' ''p1'' 4000000) ex_chain) = Inl (VerifyError ''invalid'' ''bad-prevblk'' 0 False)"
  by (simp add: add_all_def ex_orphans_def add_defs ex_defs)


subsection \<open>Non-contextual failures and the invalid cache\<close>

lemma abstractblock_verify_now [simp]:
  "abstractblock_verify (env\<lparr>now := t\<rparr>) b ret = abstractblock_verify env b ret"
  by (simp add: abstractblock_verify_def split: option.splits)





subsection \<open>Placement by chainwork\<close>




subsection \<open>Verification failures and the invalid cache\<close>

lemma saveAlternate_fails:
  "fst (verify env c b prev) = Inl err \<Longrightarrow>
     saveAlternate env entry b prev c
       = (Inl err, on_verify_error err entry (snd (verify env c b prev)) c)"
  by (cases "verify env c b prev") (simp add: saveAlternate_def)

lemma reconnect_fails:
  "load_block env c entry = Inr b \<Longrightarrow> getPrevious entry = Some prev \<Longrightarrow>
   fst (verifyContext env c b prev) = Inl err \<Longrightarrow>
     reconnect env entry c
       = (Inl err, on_verify_error err entry (snd (verifyContext env c b prev)) c)"
  by (cases "verifyContext env c b prev") (simp add: reconnect_def)

lemma connect_best_fails:
  "fst (verifyContext env c b prev) = Inl err \<Longrightarrow>
     connect_best env entry b prev c
       = (Inl err, on_verify_error err entry (snd (verifyContext env c b prev)) c)"
  by (cases "verifyContext env c b prev") (simp add: connect_best_def)

text \<open>
  Claim C3. Let a verification fail with a \<open>VerifyError\<close>: the verification of the
  block in \<open>saveAlternate\<close>, of the block loaded for the entry in \<open>reconnect\<close>, of
  the block itself in \<open>setBestChain\<close> (with or without a reorganization before it), or
  of the block of an entry that the reorganization of \<open>setBestChain\<close> reconnects. Then
  the function returns that error, and the invalid cache afterwards is the cache as it
  was when the error is flagged malleated, and the cache with the hash of the failing
  block set in it when the error is not: the hash of the entry in the first three
  cases, and in the last the hash of the entry \<open>x\<close> whose \<open>reconnect\<close> failed, after
  the entries before it were reconnected. A hash set in the cache is in the cache.
\<close>

theorem invalid_cache_unless_malleated:
  assumes "isVerifyError err"
  shows "(fst (verify env c b prev) = Inl err \<longrightarrow>
            fst (saveAlternate env entry b prev c) = Inl err
            \<and> invalid (snd (saveAlternate env entry b prev c))
                = (if malleated err then invalid c else lru_set 100 (invalid c) (e_hash entry)))
       \<and> (load_block env c entry = Inr b \<and> getPrevious entry = Some prev
            \<and> fst (verifyContext env c b prev) = Inl err \<longrightarrow>
            fst (reconnect env entry c) = Inl err
            \<and> invalid (snd (reconnect env entry c))
                = (if malleated err then invalid c else lru_set 100 (invalid c) (e_hash entry)))
       \<and> (e_prevBlock entry = e_hash (tip c) \<and> fst (verifyContext env c b prev) = Inl err \<longrightarrow>
            fst (setBestChain env entry b prev c) = Inl err
            \<and> invalid (snd (setBestChain env entry b prev c))
                = (if malleated err then invalid c else lru_set 100 (invalid c) (e_hash entry)))
       \<and> (\<not> opt_spv env \<and> e_prevBlock entry \<noteq> e_hash (tip c)
            \<and> reorganize env entry b c = (Inr u, cr)
            \<and> fst (verifyContext env cr b prev) = Inl err \<longrightarrow>
            fst (setBestChain env entry b prev c) = Inl err
            \<and> invalid (snd (setBestChain env entry b prev c))
                = (if malleated err then invalid c else lru_set 100 (invalid c) (e_hash entry)))
       \<and> (\<not> opt_spv env \<and> e_prevBlock entry \<noteq> e_hash (tip c)
            \<and> reorganize env entry b c = (Inl err, cr) \<longrightarrow>
            setBestChain env entry b prev c = (Inl err, cr)
            \<and> (\<exists>fork reconnected x rest c2 cx.
                  findFork (tip c) entry = Inr fork
                  \<and> rev (tl (takeWhile (\<lambda>y. e_hash y \<noteq> e_hash fork) (ancestors_from entry)))
                      = reconnected @ x # rest
                  \<and> disconnect_all env
                        (takeWhile (\<lambda>y. e_hash y \<noteq> e_hash fork) (ancestors_from (tip c))) c
                      = (Inr (), c2)
                  \<and> reconnect_all env reconnected c2 = (Inr (), cx)
                  \<and> reconnect env x cx = (Inl err, cr)
                  \<and> invalid cr
                      = (if malleated err then invalid c else lru_set 100 (invalid c) (e_hash x))))
       \<and> lru_has (lru_set 100 (invalid c) h) h"
proof (intro conjI impI)
  assume "fst (verify env c b prev) = Inl err"
  from saveAlternate_fails [OF this] assms
  show "fst (saveAlternate env entry b prev c) = Inl err"
    "invalid (snd (saveAlternate env entry b prev c))
       = (if malleated err then invalid c else lru_set 100 (invalid c) (e_hash entry))"
    by (simp_all add: on_verify_error_effect)
next
  assume a: "load_block env c entry = Inr b \<and> getPrevious entry = Some prev
            \<and> fst (verifyContext env c b prev) = Inl err"
  then have "reconnect env entry c
       = (Inl err, on_verify_error err entry (snd (verifyContext env c b prev)) c)"
    by (simp add: reconnect_fails)
  with assms show "fst (reconnect env entry c) = Inl err"
    "invalid (snd (reconnect env entry c))
       = (if malleated err then invalid c else lru_set 100 (invalid c) (e_hash entry))"
    by (simp_all add: on_verify_error_effect)
next
  assume a: "e_prevBlock entry = e_hash (tip c) \<and> fst (verifyContext env c b prev) = Inl err"
  then have "setBestChain env entry b prev c
       = (Inl err, on_verify_error err entry (snd (verifyContext env c b prev)) c)"
    by (simp add: setBestChain_def connect_best_fails)
  with assms show "fst (setBestChain env entry b prev c) = Inl err"
    "invalid (snd (setBestChain env entry b prev c))
       = (if malleated err then invalid c else lru_set 100 (invalid c) (e_hash entry))"
    by (simp_all add: on_verify_error_effect)
next
  assume a: "\<not> opt_spv env \<and> e_prevBlock entry \<noteq> e_hash (tip c)
            \<and> reorganize env entry b c = (Inr u, cr)
            \<and> fst (verifyContext env cr b prev) = Inl err"
  then have s: "setBestChain env entry b prev c
       = (Inl err, on_verify_error err entry (snd (verifyContext env cr b prev)) cr)"
    by (simp add: setBestChain_def connect_best_fails)
  from a have "reorganize env entry b c = (Inr u, cr)" by simp
  from reorganize_ok [OF this] have "invalid cr = invalid c" by blast
  with s assms show "fst (setBestChain env entry b prev c) = Inl err"
    "invalid (snd (setBestChain env entry b prev c))
       = (if malleated err then invalid c else lru_set 100 (invalid c) (e_hash entry))"
    by (simp_all add: on_verify_error_effect)
next
  assume a: "\<not> opt_spv env \<and> e_prevBlock entry \<noteq> e_hash (tip c)
            \<and> reorganize env entry b c = (Inl err, cr)"
  then show "setBestChain env entry b prev c = (Inl err, cr)"
    by (simp add: setBestChain_def)
  from a have "reorganize env entry b c = (Inl err, cr)" by simp
  from reorganize_verify_error [OF this assms]
  show "\<exists>fork reconnected x rest c2 cx.
          findFork (tip c) entry = Inr fork
          \<and> rev (tl (takeWhile (\<lambda>y. e_hash y \<noteq> e_hash fork) (ancestors_from entry)))
              = reconnected @ x # rest
          \<and> disconnect_all env
                (takeWhile (\<lambda>y. e_hash y \<noteq> e_hash fork) (ancestors_from (tip c))) c
              = (Inr (), c2)
          \<and> reconnect_all env reconnected c2 = (Inr (), cx)
          \<and> reconnect env x cx = (Inl err, cr)
          \<and> invalid cr
              = (if malleated err then invalid c else lru_set 100 (invalid c) (e_hash x))"
    by blast
next
  show "lru_has (lru_set 100 (invalid c) h) h" by (rule lru_set_has)
qed

theorem invalid_cache_unless_malleated_witness:
  "isVerifyError ex_too_old \<and> \<not> malleated ex_too_old
   \<and> fst (verify ex_env ex_a1_chain ex_early ex_genesis) = Inl ex_too_old
   \<and> fst (saveAlternate ex_env (ex_entry ex_early ex_genesis) ex_early ex_genesis ex_a1_chain) = Inl ex_too_old
   \<and> invalid (snd (saveAlternate ex_env (ex_entry ex_early ex_genesis) ex_early ex_genesis ex_a1_chain)) = [''e1'']
   \<and> isVerifyError ex_too_new \<and> malleated ex_too_new
   \<and> fst (verify ex_env ex_a1_chain ex_late ex_genesis) = Inl ex_too_new
   \<and> fst (saveAlternate ex_env (ex_entry ex_late ex_genesis) ex_late ex_genesis ex_a1_chain) = Inl ex_too_new
   \<and> invalid (snd (saveAlternate ex_env (ex_entry ex_late ex_genesis) ex_late ex_genesis ex_a1_chain)) = []
   \<and> isVerifyError ex_missing_input \<and> \<not> malleated ex_missing_input
   \<and> load_block ex_env ex_bad_fork_chain ex_X2 = Inr ex_x2
   \<and> fst (verifyContext ex_env ex_bad_fork_chain ex_x2 ex_B1) = Inl ex_missing_input
   \<and> fst (reconnect ex_env ex_X2 ex_bad_fork_chain) = Inl ex_missing_input
   \<and> invalid (snd (reconnect ex_env ex_X2 ex_bad_fork_chain)) = [''x2'']
   \<and> e_prevBlock ex_Z2 = e_hash (tip ex_a1_chain)
   \<and> fst (verifyContext ex_env ex_a1_chain ex_z2 ex_A1) = Inl ex_missing_input
   \<and> fst (setBestChain ex_env ex_Z2 ex_z2 ex_A1 ex_a1_chain) = Inl ex_missing_input
   \<and> invalid (snd (setBestChain ex_env ex_Z2 ex_z2 ex_A1 ex_a1_chain)) = [''z2'']
   \<and> fst (reorganize ex_env ex_Y3 ex_y3 ex_fork_chain) = Inr ()
   \<and> fst (setBestChain ex_env ex_Y3 ex_y3 ex_B2 ex_fork_chain) = Inl ex_missing_input
   \<and> invalid (snd (setBestChain ex_env ex_Y3 ex_y3 ex_B2 ex_fork_chain)) = [''y3'']
   \<and> fst (reorganize ex_env ex_X3 ex_x3 ex_bad_fork_chain) = Inl ex_missing_input
   \<and> fst (setBestChain ex_env ex_X3 ex_x3 ex_X2 ex_bad_fork_chain) = Inl ex_missing_input
   \<and> invalid (snd (setBestChain ex_env ex_X3 ex_x3 ex_X2 ex_bad_fork_chain)) = [''x2'']"
proof -
  note defs = ex_chain_defs add_defs reorg_defs ex_defs ex_block_defs ex_error_defs
  have v: "isVerifyError ex_too_old" "\<not> malleated ex_too_old"
    "isVerifyError ex_too_new" "malleated ex_too_new"
    "isVerifyError ex_missing_input" "\<not> malleated ex_missing_input"
    by (simp_all add: ex_error_defs)
  have i: "invalid ex_a1_chain = []" "invalid ex_bad_fork_chain = []" "invalid ex_fork_chain = []"
    "e_hash (ex_entry ex_early ex_genesis) = ''e1''" "e_hash ex_X2 = ''x2''"
    "e_hash ex_Z2 = ''z2''" "e_hash ex_Y3 = ''y3''"
    by (simp_all add: defs)
  have s1: "fst (verify ex_env ex_a1_chain ex_early ex_genesis) = Inl ex_too_old"
    by (simp add: defs)
  have s2: "fst (verify ex_env ex_a1_chain ex_late ex_genesis) = Inl ex_too_new"
    by (simp add: defs)
  have r1: "load_block ex_env ex_bad_fork_chain ex_X2 = Inr ex_x2"
    by (simp add: defs)
  have r2: "getPrevious ex_X2 = Some ex_B1" by (simp add: defs)
  have r3: "fst (verifyContext ex_env ex_bad_fork_chain ex_x2 ex_B1) = Inl ex_missing_input"
    by (simp add: defs)
  have z1: "e_prevBlock ex_Z2 = e_hash (tip ex_a1_chain)" by (simp add: defs)
  have z2: "fst (verifyContext ex_env ex_a1_chain ex_z2 ex_A1) = Inl ex_missing_input"
    by (simp add: defs)
  have n: "\<not> opt_spv ex_env" by (simp add: ex_defs)
  have y1: "e_prevBlock ex_Y3 \<noteq> e_hash (tip ex_fork_chain)" by (simp add: defs)
  have y2: "fst (reorganize ex_env ex_Y3 ex_y3 ex_fork_chain) = Inr ()" by (simp add: defs)
  have y3: "reorganize ex_env ex_Y3 ex_y3 ex_fork_chain
      = (Inr (), snd (reorganize ex_env ex_Y3 ex_y3 ex_fork_chain))"
    using y2 by (metis prod.collapse)
  have y4: "fst (verifyContext ex_env (snd (reorganize ex_env ex_Y3 ex_y3 ex_fork_chain)) ex_y3 ex_B2)
      = Inl ex_missing_input"
    by (simp add: defs)
  have x1: "e_prevBlock ex_X3 \<noteq> e_hash (tip ex_bad_fork_chain)" by (simp add: defs)
  have x2: "fst (reorganize ex_env ex_X3 ex_x3 ex_bad_fork_chain) = Inl ex_missing_input"
    by (simp add: defs)
  have x3: "reorganize ex_env ex_X3 ex_x3 ex_bad_fork_chain
      = (Inl ex_missing_input, snd (reorganize ex_env ex_X3 ex_x3 ex_bad_fork_chain))"
    using x2 by (metis prod.collapse)
  have x4: "invalid (snd (reorganize ex_env ex_X3 ex_x3 ex_bad_fork_chain)) = [''x2'']"
    by (simp add: defs)
  note t1 = invalid_cache_unless_malleated [OF v(1), where env = ex_env
      and entry = "ex_entry ex_early ex_genesis" and b = ex_early and prev = ex_genesis
      and c = ex_a1_chain]
  note t2 = invalid_cache_unless_malleated [OF v(3), where env = ex_env
      and entry = "ex_entry ex_late ex_genesis" and b = ex_late and prev = ex_genesis
      and c = ex_a1_chain]
  note t3 = invalid_cache_unless_malleated [OF v(5), where env = ex_env
      and entry = ex_X2 and b = ex_x2 and prev = ex_B1 and c = ex_bad_fork_chain]
  note t4 = invalid_cache_unless_malleated [OF v(5), where env = ex_env
      and entry = ex_Z2 and b = ex_z2 and prev = ex_A1 and c = ex_a1_chain]
  note t5 = invalid_cache_unless_malleated [OF v(5), where env = ex_env
      and entry = ex_Y3 and b = ex_y3 and prev = ex_B2 and c = ex_fork_chain
      and cr = "snd (reorganize ex_env ex_Y3 ex_y3 ex_fork_chain)" and u = "()"]
  note t6 = invalid_cache_unless_malleated [OF v(5), where env = ex_env
      and entry = ex_X3 and b = ex_x3 and prev = ex_X2 and c = ex_bad_fork_chain
      and cr = "snd (reorganize ex_env ex_X3 ex_x3 ex_bad_fork_chain)"]
  from t1 s1 v i have a1:
    "fst (saveAlternate ex_env (ex_entry ex_early ex_genesis) ex_early ex_genesis ex_a1_chain) = Inl ex_too_old"
    "invalid (snd (saveAlternate ex_env (ex_entry ex_early ex_genesis) ex_early ex_genesis ex_a1_chain)) = [''e1'']"
    by (simp_all add: lru_set_def)
  from t2 s2 v i have a2:
    "fst (saveAlternate ex_env (ex_entry ex_late ex_genesis) ex_late ex_genesis ex_a1_chain) = Inl ex_too_new"
    "invalid (snd (saveAlternate ex_env (ex_entry ex_late ex_genesis) ex_late ex_genesis ex_a1_chain)) = []"
    by simp_all
  from t3 r1 r2 r3 v i have a3:
    "fst (reconnect ex_env ex_X2 ex_bad_fork_chain) = Inl ex_missing_input"
    "invalid (snd (reconnect ex_env ex_X2 ex_bad_fork_chain)) = [''x2'']"
    by (simp_all add: lru_set_def)
  from t4 z1 z2 v i have a4:
    "fst (setBestChain ex_env ex_Z2 ex_z2 ex_A1 ex_a1_chain) = Inl ex_missing_input"
    "invalid (snd (setBestChain ex_env ex_Z2 ex_z2 ex_A1 ex_a1_chain)) = [''z2'']"
    by (simp_all add: lru_set_def)
  from t5 n y1 y3 y4 v i have a5:
    "fst (setBestChain ex_env ex_Y3 ex_y3 ex_B2 ex_fork_chain) = Inl ex_missing_input"
    "invalid (snd (setBestChain ex_env ex_Y3 ex_y3 ex_B2 ex_fork_chain)) = [''y3'']"
    by (simp_all add: lru_set_def)
  from t6 n x1 x3 have "setBestChain ex_env ex_X3 ex_x3 ex_X2 ex_bad_fork_chain
      = (Inl ex_missing_input, snd (reorganize ex_env ex_X3 ex_x3 ex_bad_fork_chain))"
    by simp
  with x4 have a6:
    "fst (setBestChain ex_env ex_X3 ex_x3 ex_X2 ex_bad_fork_chain) = Inl ex_missing_input"
    "invalid (snd (setBestChain ex_env ex_X3 ex_x3 ex_X2 ex_bad_fork_chain)) = [''x2'']"
    by simp_all
  from v s1 s2 r1 r3 z1 z2 y2 x2 a1 a2 a3 a4 a5 a6 show ?thesis by simp
qed
subsection \<open>A reorganization that fails\<close>

lemma add_rounds_error:
  "(i, bk, ck) \<in> set (add_rounds env initial b c) \<Longrightarrow> add_step env i bk ck = (Inl e, c') \<Longrightarrow>
     add_loop env initial result b c = (Inl e, c')"
proof (induction env initial b c arbitrary: result rule: add_rounds.induct)
  case (1 env initial b c)
  obtain r0 c0 where s: "add_step env initial b c = (r0, c0)" by (cases "add_step env initial b c")
  define later where "later =
       (case r0 of
          Inl e \<Rightarrow> []
        | Inr entry \<Rightarrow>
            (case resolveOrphan (blk_hash b) c0 of
               (None, c2) \<Rightarrow> []
             | (Some b', c2) \<Rightarrow> add_rounds env False b' c2))"
  have unfold: "add_rounds env initial b c = (initial, b, c) # later"
    by (subst add_rounds.simps) (simp add: s later_def)
  show ?case
  proof (cases "(i, bk, ck) = (initial, b, c)")
    case True
    with "1.prems"(2) show ?thesis by simp
  next
    case False
    from "1.prems"(1) have "(i, bk, ck) = (initial, b, c) \<or> (i, bk, ck) \<in> set later"
      unfolding unfold by (rule set_ConsD)
    with False have tl: "(i, bk, ck) \<in> set later" by blast
    then obtain entry where r0: "r0 = Inr entry" by (cases r0) (simp_all add: later_def)
    obtain o2 c2 where ro': "resolveOrphan (blk_hash b) c0 = (o2, c2)"
      by (cases "resolveOrphan (blk_hash b) c0")
    with tl r0 obtain b' where o2: "o2 = Some b'" by (cases o2) (simp_all add: later_def)
    from ro' o2 have ro: "resolveOrphan (blk_hash b) c0 = (Some b', c2)" by simp
    from tl r0 ro have m: "(i, bk, ck) \<in> set (add_rounds env False b' c2)"
      by (simp add: later_def)
    from "1.IH" [OF s [symmetric] r0 ro [symmetric] refl m "1.prems"(2)]
    have "add_loop env False (Some (case result of None \<Rightarrow> entry | Some r \<Rightarrow> r)) b' c2 = (Inl e, c')" .
    with s r0 ro show ?thesis by simp
  qed
qed

lemma add_rounds_second:
  assumes "add_step env initial b c = (Inr entry, c1)"
    and "resolveOrphan (blk_hash b) c1 = (Some b', c2)"
  shows "(False, b', c2) \<in> set (add_rounds env initial b c)"
proof -
  have "add_rounds env initial b c = (initial, b, c) # add_rounds env False b' c2"
    by (subst add_rounds.simps) (simp add: assms)
  moreover have "(False, b', c2) \<in> set (add_rounds env False b' c2)"
    by (subst add_rounds.simps) simp
  ultimately show ?thesis by simp
qed

text \<open>
  Claim C2. Let a round of \<open>add\<close> (the first, or one that takes a resolved orphan) on
  a full node reach a reorganization: the block passes the guards, its parent is known,
  its entry has more work than the tip and a parent other than the tip. When the
  reorganization fails with a \<open>VerifyError\<close>, \<open>add\<close> returns that error and the state
  the reorganization left. The entries to connect split into the entries
  \<open>reconnected\<close>, each reconnected in turn after the old branch was disconnected, the
  entry \<open>x\<close> whose \<open>reconnect\<close> failed with the error, and the rest; the \<open>connect\<close>
  events are those of \<open>reconnected\<close>; and the tip is left at the last entry
  reconnected, and at the entry with the hash of the fork only when the first entry to
  connect fails.
\<close>

theorem reorganize_failure:
  assumes "(initial, bk, ck) \<in> set (add_rounds env True b c)"
    and "\<not> opt_spv env"
    and "add_guards env bk ck = (Inr b1, c1)"
    and "add_prev env b1 c1 = (Inr (b', prev), c2)"
    and "e_chainwork (fromBlock env b' prev) > e_chainwork (tip c2)"
    and "e_prevBlock (fromBlock env b' prev) \<noteq> e_hash (tip c2)"
    and "reorganize env (fromBlock env b' prev) b' c2 = (Inl err, c')"
    and "isVerifyError err"
  shows "add env b c = (Inl err, c')
     \<and> (\<exists>fork reconnected x rest c3 cx.
          findFork (tip c2) (fromBlock env b' prev) = Inr fork
          \<and> rev (tl (takeWhile (\<lambda>y. e_hash y \<noteq> e_hash fork) (ancestors_from (fromBlock env b' prev))))
              = reconnected @ x # rest
          \<and> disconnect_all env
                (takeWhile (\<lambda>y. e_hash y \<noteq> e_hash fork) (ancestors_from (tip c2))) c2
              = (Inr (), c3)
          \<and> reconnect_all env reconnected c3 = (Inr (), cx)
          \<and> reconnect env x cx = (Inl err, c')
          \<and> tip_moves (events c') = tip_moves (events c2)
               @ map Disconnected (takeWhile (\<lambda>y. e_hash y \<noteq> e_hash fork) (ancestors_from (tip c2)))
               @ map Connected reconnected
          \<and> (reconnected = [] \<longrightarrow> e_hash (tip c') = e_hash fork)
          \<and> (reconnected \<noteq> [] \<longrightarrow> tip c' = last reconnected))"
proof -
  from assms(2,6,7) have "setBestChain env (fromBlock env b' prev) b' prev c2 = (Inl err, c')"
    by (simp add: setBestChain_def)
  with assms(5) have "add_place env initial b' prev c2 = (Inl err, c')"
    by (simp add: add_place_def Let_def)
  with assms(3,4) have "add_step env initial bk ck = (Inl err, c')"
    by (simp add: add_step_def)
  from add_rounds_error [OF assms(1) this] have a: "add env b c = (Inl err, c')"
    by (simp add: add_def add_nolock_def)
  from reorganize_verify_error [OF assms(7,8)] a show ?thesis by blast
qed

theorem reorganize_failure_witness:
  "(True, ex_x3, ex_bad_fork_chain) \<in> set (add_rounds ex_env True ex_x3 ex_bad_fork_chain)
   \<and> \<not> opt_spv ex_env
   \<and> add_guards ex_env ex_x3 ex_bad_fork_chain = (Inr (ex_x3\<lparr>blk_valid := Some True\<rparr>), ex_bad_fork_chain)
   \<and> add_prev ex_env (ex_x3\<lparr>blk_valid := Some True\<rparr>) ex_bad_fork_chain
       = (Inr (ex_x3\<lparr>blk_valid := Some True\<rparr>, ex_X2), ex_bad_fork_chain)
   \<and> fromBlock ex_env (ex_x3\<lparr>blk_valid := Some True\<rparr>) ex_X2 = ex_X3
   \<and> e_chainwork ex_X3 > e_chainwork (tip ex_bad_fork_chain)
   \<and> e_prevBlock ex_X3 \<noteq> e_hash (tip ex_bad_fork_chain)
   \<and> fst (reorganize ex_env ex_X3 (ex_x3\<lparr>blk_valid := Some True\<rparr>) ex_bad_fork_chain) = Inl ex_missing_input
   \<and> isVerifyError ex_missing_input
   \<and> add ex_env ex_x3 ex_bad_fork_chain
       = (Inl ex_missing_input,
          snd (reorganize ex_env ex_X3 (ex_x3\<lparr>blk_valid := Some True\<rparr>) ex_bad_fork_chain))
   \<and> (False, ex_x4\<lparr>blk_valid := Some True\<rparr>, ex_round2_chain)
        \<in> set (add_rounds ex_env True ex_x3 ex_orphan_fork_chain)
   \<and> add_guards ex_env (ex_x4\<lparr>blk_valid := Some True\<rparr>) ex_round2_chain
       = (Inr (ex_x4\<lparr>blk_valid := Some True\<rparr>), ex_round2_chain)
   \<and> add_prev ex_env (ex_x4\<lparr>blk_valid := Some True\<rparr>) ex_round2_chain
       = (Inr (ex_x4\<lparr>blk_valid := Some True\<rparr>, ex_X3), ex_round2_chain)
   \<and> fromBlock ex_env (ex_x4\<lparr>blk_valid := Some True\<rparr>) ex_X3 = ex_X4
   \<and> e_chainwork ex_X4 > e_chainwork (tip ex_round2_chain)
   \<and> e_prevBlock ex_X4 \<noteq> e_hash (tip ex_round2_chain)
   \<and> fst (reorganize ex_env ex_X4 (ex_x4\<lparr>blk_valid := Some True\<rparr>) ex_round2_chain) = Inl ex_missing_input
   \<and> add ex_env ex_x3 ex_orphan_fork_chain
       = (Inl ex_missing_input,
          snd (reorganize ex_env ex_X4 (ex_x4\<lparr>blk_valid := Some True\<rparr>) ex_round2_chain))
   \<and> tip (snd (add ex_env ex_x3 ex_orphan_fork_chain)) = ex_B1"
proof -
  note defs = ex_chain_defs add_defs reorg_defs ex_defs ex_block_defs ex_error_defs
  let ?x3 = "ex_x3\<lparr>blk_valid := Some True\<rparr>"
  let ?x4 = "ex_x4\<lparr>blk_valid := Some True\<rparr>"
  have m1: "(True, ex_x3, ex_bad_fork_chain) \<in> set (add_rounds ex_env True ex_x3 ex_bad_fork_chain)"
    by (subst add_rounds.simps) simp
  have h1: "\<not> opt_spv ex_env" by (simp add: ex_defs)
  have g1: "add_guards ex_env ex_x3 ex_bad_fork_chain = (Inr ?x3, ex_bad_fork_chain)"
    by (simp add: defs)
  have p1: "add_prev ex_env ?x3 ex_bad_fork_chain = (Inr (?x3, ex_X2), ex_bad_fork_chain)"
    by (simp add: defs)
  have e1: "fromBlock ex_env ?x3 ex_X2 = ex_X3" by (simp add: defs)
  have w1: "e_chainwork ex_X3 > e_chainwork (tip ex_bad_fork_chain)" by (simp add: defs)
  have n1: "e_prevBlock ex_X3 \<noteq> e_hash (tip ex_bad_fork_chain)" by (simp add: defs)
  have f1: "fst (reorganize ex_env ex_X3 ?x3 ex_bad_fork_chain) = Inl ex_missing_input"
    by (simp add: defs)
  have r1: "reorganize ex_env ex_X3 ?x3 ex_bad_fork_chain
      = (Inl ex_missing_input, snd (reorganize ex_env ex_X3 ?x3 ex_bad_fork_chain))"
    using f1 by (metis prod.collapse)
  have v: "isVerifyError ex_missing_input" by (simp add: ex_error_defs)
  have s2: "add_step ex_env True ex_x3 ex_orphan_fork_chain = (Inr ex_X3, ex_round1_chain)"
  proof -
    have "fst (add_step ex_env True ex_x3 ex_orphan_fork_chain) = Inr ex_X3" by (simp add: defs)
    then show ?thesis unfolding ex_round1_chain_def by (metis prod.collapse)
  qed
  have o2: "resolveOrphan (blk_hash ex_x3) ex_round1_chain = (Some ?x4, ex_round2_chain)"
  proof -
    have "fst (resolveOrphan ''x3'' ex_round1_chain) = Some ?x4" by (simp add: defs)
    moreover have "blk_hash ex_x3 = ''x3''" by (simp add: defs)
    ultimately show ?thesis unfolding ex_round2_chain_def by (metis prod.collapse)
  qed
  have m2: "(False, ?x4, ex_round2_chain) \<in> set (add_rounds ex_env True ex_x3 ex_orphan_fork_chain)"
    by (rule add_rounds_second [OF s2 o2])
  have g2: "add_guards ex_env ?x4 ex_round2_chain = (Inr ?x4, ex_round2_chain)"
    by (simp add: defs)
  have p2: "add_prev ex_env ?x4 ex_round2_chain = (Inr (?x4, ex_X3), ex_round2_chain)"
    by (simp add: defs)
  have e2: "fromBlock ex_env ?x4 ex_X3 = ex_X4" by (simp add: defs)
  have w2: "e_chainwork ex_X4 > e_chainwork (tip ex_round2_chain)" by (simp add: defs)
  have n2: "e_prevBlock ex_X4 \<noteq> e_hash (tip ex_round2_chain)" by (simp add: defs)
  have f2: "fst (reorganize ex_env ex_X4 ?x4 ex_round2_chain) = Inl ex_missing_input"
    by (simp add: defs)
  have r2: "reorganize ex_env ex_X4 ?x4 ex_round2_chain
      = (Inl ex_missing_input, snd (reorganize ex_env ex_X4 ?x4 ex_round2_chain))"
    using f2 by (metis prod.collapse)
  have t2: "tip (snd (reorganize ex_env ex_X4 ?x4 ex_round2_chain)) = ex_B1"
    by (simp add: defs)
  from reorganize_failure [OF m1 h1 g1 p1 w1 [folded e1] n1 [folded e1] r1 [folded e1] v]
  have a1: "add ex_env ex_x3 ex_bad_fork_chain
       = (Inl ex_missing_input, snd (reorganize ex_env ex_X3 ?x3 ex_bad_fork_chain))"
    by (simp add: e1)
  from reorganize_failure [OF m2 h1 g2 p2 w2 [folded e2] n2 [folded e2] r2 [folded e2] v]
  have a2: "add ex_env ex_x3 ex_orphan_fork_chain
       = (Inl ex_missing_input, snd (reorganize ex_env ex_X4 ?x4 ex_round2_chain))"
    by (simp add: e2)
  from a2 t2 have t: "tip (snd (add ex_env ex_x3 ex_orphan_fork_chain)) = ex_B1" by simp
  from m1 h1 g1 p1 e1 w1 n1 f1 v a1 m2 g2 p2 e2 w2 n2 f2 a2 t show ?thesis
    by - (intro conjI; assumption)
qed

text \<open>
  With a1, a2 the main chain and b1, x2 alternates, the block x3 on x2 starts a
  reorganization with the genesis entry as fork; b1 is reconnected, x2 fails, and the
  tip is left at b1.
\<close>

theorem reorganize_failure_tip_not_fork:
  "fst (add ex_env ex_x3 ex_bad_fork_chain) = Inl ex_missing_input
   \<and> findFork (tip ex_bad_fork_chain) ex_X3 = Inr ex_genesis
   \<and> tip (snd (add ex_env ex_x3 ex_bad_fork_chain)) = ex_B1
   \<and> e_hash ex_B1 \<noteq> e_hash ex_genesis"
  by (simp add: ex_chain_defs add_defs reorg_defs ex_defs ex_block_defs ex_error_defs)
subsection \<open>Order of connect and disconnect events\<close>



subsection \<open>Sequence locks\<close>

lemma Max_insert_max:
  "finite A \<Longrightarrow> Max (insert (max a x) A) = Max (insert a (insert x A))"
  by (cases "A = {}") (simp_all add: max.assoc max.commute max.left_commute)

lemma getLocks_loop_closed:
  assumes "\<forall>i \<in> set (time_locked k ins).
             1 \<le> coinHeight c view i \<and> getAncestor prev (coinHeight c view i - 1) \<noteq> None"
  shows "getLocks_loop k c prev view ins mh mt =
     Inr \<lparr>lt_height = Max (set (mh # map (height_lock k c view) (height_locked k ins))),
          lt_time = Max (set (mt # map (time_lock k c prev view) (time_locked k ins)))\<rparr>"
  using assms
proof (induction ins arbitrary: mh mt)
  case Nil
  then show ?case by (simp add: height_locked_def time_locked_def)
next
  case (Cons i ins)
  have rest: "\<forall>i \<in> set (time_locked k ins).
             1 \<le> coinHeight c view i \<and> getAncestor prev (coinHeight c view i - 1) \<noteq> None"
    using Cons.prems by (simp add: time_locked_def)
  note ih = Cons.IH [OF rest]
  show ?case
  proof (cases "js_and (in_sequence i) (SEQUENCE_DISABLE_FLAG k) \<noteq> 0")
    case True
    then show ?thesis by (simp add: ih height_locked_def time_locked_def)
  next
    case False
    note enabled = False
    show ?thesis
    proof (cases "js_and (in_sequence i) (SEQUENCE_TYPE_FLAG k) = 0")
      case True
      have hl: "height_locked k (i # ins) = i # height_locked k ins"
        and tl: "time_locked k (i # ins) = time_locked k ins"
        using enabled True by (simp_all add: height_locked_def time_locked_def)
      have hv: "coinHeight c view i + (js_and (in_sequence i) (SEQUENCE_MASK k) - 1) = height_lock k c view i"
        by (simp add: height_lock_def)
      show ?thesis using enabled True
        by (simp add: ih hl tl hv Max_insert_max del: Max_insert)
    next
      case False
      have hl: "height_locked k (i # ins) = height_locked k ins"
        and tl: "time_locked k (i # ins) = i # time_locked k ins"
        using enabled False by (simp_all add: height_locked_def time_locked_def)
      from Cons.prems tl have ch: "1 \<le> coinHeight c view i"
        and "getAncestor prev (coinHeight c view i - 1) \<noteq> None" by simp_all
      then obtain a where a: "getAncestor prev (coinHeight c view i - 1) = Some a" by blast
      from ch have m: "max (coinHeight c view i - 1) 0 = coinHeight c view i - 1" by simp
      have tv: "int (getMedianTime a)
          + (js_and_shl (in_sequence i) (SEQUENCE_MASK k) (SEQUENCE_GRANULARITY k) - 1)
          = time_lock k c prev view i"
        by (simp add: time_lock_def a)
      show ?thesis using enabled False
        by (simp add: ih hl tl m a tv Max_insert_max del: Max_insert)
    qed
  qed
qed

text \<open>
  Claim C6. For a transaction that is not a coinbase, of version 2 or more, checked with
  the \<open>VERIFY_SEQUENCE\<close> flag, whose inputs locked by time spend coins of height 1 or
  more with an ancestor of \<open>prev\<close> at the height below: \<open>getLocks\<close> returns as
  \<open>minHeight\<close> the maximum of \<open>-1\<close> and of
  \<open>coinHeight + (sequence & MASK) - 1\<close> over the inputs with neither the disable nor the
  type flag, and as \<open>minTime\<close> the maximum of \<open>-1\<close> and of
  \<open>MTP(ancestor(coinHeight - 1)) + ((sequence & MASK) << GRANULARITY) - 1\<close> over the
  inputs with the type flag and without the disable flag; and \<open>verifyLocks\<close> accepts
  exactly when \<open>minHeight < prev.height + 1\<close> and \<open>minTime < MTP(prev)\<close>.
\<close>

theorem sequence_locks:
  assumes "\<not> tx_isCoinbase t" and "2 \<le> tx_version t"
    and "js_and flags (VERIFY_SEQUENCE k) \<noteq> 0"
    and "\<forall>i \<in> set (time_locked k (tx_inputs t)).
           1 \<le> coinHeight c view i \<and> getAncestor prev (coinHeight c view i - 1) \<noteq> None"
  shows "getLocks k c prev t view flags =
           Inr \<lparr>lt_height = Max (set (- 1 # map (height_lock k c view) (height_locked k (tx_inputs t)))),
                lt_time = Max (set (- 1 # map (time_lock k c prev view) (time_locked k (tx_inputs t))))\<rparr>
       \<and> verifyLocks k c prev t view flags =
           Inr (Max (set (- 1 # map (height_lock k c view) (height_locked k (tx_inputs t)))) < e_height prev + 1
                \<and> Max (set (- 1 # map (time_lock k c prev view) (time_locked k (tx_inputs t))))
                    < int (getMedianTime prev))"
proof -
  define H where "H = Max (set (- 1 # map (height_lock k c view) (height_locked k (tx_inputs t))))"
  define T where "T = Max (set (- 1 # map (time_lock k c prev view) (time_locked k (tx_inputs t))))"
  have g: "getLocks k c prev t view flags = Inr \<lparr>lt_height = H, lt_time = T\<rparr>"
    unfolding H_def T_def
    using assms(1,2,3) by (simp add: getLocks_def getLocks_loop_closed [OF assms(4)])
  have m: "(0::int) \<le> int (getMedianTime prev)" by simp
  have v: "verifyLocks k c prev t view flags = Inr (H < e_height prev + 1 \<and> T < int (getMedianTime prev))"
  proof (cases "H \<ge> e_height prev + 1")
    case True
    then show ?thesis by (simp add: verifyLocks_def g)
  next
    case False
    note hok = False
    show ?thesis
    proof (cases "T = - 1")
      case True
      with m have "T < int (getMedianTime prev)" by linarith
      with hok True show ?thesis by (simp add: verifyLocks_def g)
    next
      case False
      with hok show ?thesis by (simp add: verifyLocks_def g not_le)
    qed
  qed
  from g v show ?thesis unfolding H_def T_def by simp
qed


theorem sequence_locks_witness:
  "\<not> tx_isCoinbase ex_tx \<and> 2 \<le> tx_version ex_tx
   \<and> js_and 1 (VERIFY_SEQUENCE ex_consensus) \<noteq> 0
   \<and> time_locked ex_consensus (tx_inputs ex_tx) = [\<lparr>in_prevout = (''t2'', 0), in_sequence = 0x400002\<rparr>]
   \<and> getLocks ex_consensus (ex_chain_at ex_A2) ex_A2 ex_tx ex_view 1
       = Inr \<lparr>lt_height = 2, lt_time = 1123\<rparr>
   \<and> verifyLocks ex_consensus (ex_chain_at ex_A2) ex_A2 ex_tx ex_view 1 = Inr False"
proof -
  have h1: "\<not> tx_isCoinbase ex_tx" and h2: "2 \<le> tx_version ex_tx"
    by (simp_all add: ex_tx_def)
  have h3: "js_and 1 (VERIFY_SEQUENCE ex_consensus) \<noteq> 0"
    by (simp add: js_and_def ex_consensus_def)
  have tl: "time_locked ex_consensus (tx_inputs ex_tx)
      = [\<lparr>in_prevout = (''t2'', 0), in_sequence = 0x400002\<rparr>]"
    by (simp add: time_locked_def js_and_def ex_consensus_def ex_tx_def)
  have hl: "height_locked ex_consensus (tx_inputs ex_tx)
      = [\<lparr>in_prevout = (''t1'', 0), in_sequence = 2\<rparr>]"
    by (simp add: height_locked_def js_and_def ex_consensus_def ex_tx_def)
  have ch: "coinHeight (ex_chain_at ex_A2) ex_view \<lparr>in_prevout = (''t2'', 0), in_sequence = 0x400002\<rparr> = 2"
    "coinHeight (ex_chain_at ex_A2) ex_view \<lparr>in_prevout = (''t1'', 0), in_sequence = 2\<rparr> = 1"
    by (simp_all add: coinHeight_def getHeight_def ex_view_def)
  have an: "getAncestor ex_A2 1 = Some ex_A1"
    by (simp add: ex_defs ex_block_defs fromBlock_def)
  have mt: "getMedianTime ex_A1 = 100" "getMedianTime ex_A2 = 100"
    by (simp_all add: getMedianTime_def ex_defs ex_block_defs fromBlock_def)
  have h4: "\<forall>i \<in> set (time_locked ex_consensus (tx_inputs ex_tx)).
      1 \<le> coinHeight (ex_chain_at ex_A2) ex_view i
      \<and> getAncestor ex_A2 (coinHeight (ex_chain_at ex_A2) ex_view i - 1) \<noteq> None"
    by (simp add: tl ch an)
  have hv: "height_lock ex_consensus (ex_chain_at ex_A2) ex_view \<lparr>in_prevout = (''t1'', 0), in_sequence = 2\<rparr> = 2"
    by (simp add: height_lock_def ch js_and_def ex_consensus_def)
  have tv: "time_lock ex_consensus (ex_chain_at ex_A2) ex_A2 ex_view
      \<lparr>in_prevout = (''t2'', 0), in_sequence = 0x400002\<rparr> = 1123"
    by (simp add: time_lock_def ch an mt js_and_shl_def ex_consensus_def)
  have ht: "e_height ex_A2 = 2" by (simp add: ex_defs ex_block_defs fromBlock_def)
  from sequence_locks [OF h1 h2 h3 h4] h1 h2 h3 tl
  show ?thesis by (simp add: tl hl hv tv mt ht)
qed

subsection \<open>Versionbits state\<close>

subsection \<open>The median time past does not decrease along a valid chain\<close>

lemma sorted_nth_lower:
  fixes xs :: "nat list"
  assumes "k < length xs" and "length (filter (\<lambda>y. y < m) xs) \<le> k"
  shows "m \<le> sort xs ! k"
proof (rule ccontr)
  assume "\<not> m \<le> sort xs ! k"
  then have lt: "sort xs ! k < m" by simp
  have len: "length (sort xs) = length xs" by simp
  have "\<forall>y \<in> set (take (Suc k) (sort xs)). y < m"
  proof
    fix y assume "y \<in> set (take (Suc k) (sort xs))"
    then obtain i where i: "i < Suc k" "i < length (sort xs)" "y = sort xs ! i"
      by (auto simp add: in_set_conv_nth)
    then have "sort xs ! i \<le> sort xs ! k"
      using assms(1) by (intro sorted_nth_mono) simp_all
    with lt i show "y < m" by simp
  qed
  then have "filter (\<lambda>y. y < m) (take (Suc k) (sort xs)) = take (Suc k) (sort xs)"
    by (simp add: filter_id_conv)
  then have "length (filter (\<lambda>y. y < m) (take (Suc k) (sort xs))) = Suc k"
    using assms(1) by simp
  moreover have "length (filter (\<lambda>y. y < m) (take (Suc k) (sort xs)))
      \<le> length (filter (\<lambda>y. y < m) (sort xs))"
  proof -
    have "sort xs = take (Suc k) (sort xs) @ drop (Suc k) (sort xs)" by simp
    then have "filter (\<lambda>y. y < m) (sort xs)
        = filter (\<lambda>y. y < m) (take (Suc k) (sort xs)) @ filter (\<lambda>y. y < m) (drop (Suc k) (sort xs))"
      by (metis filter_append)
    then show ?thesis by simp
  qed
  moreover have "length (filter (\<lambda>y. y < m) (sort xs)) = length (filter (\<lambda>y. y < m) xs)"
    by (simp add: filter_sort)
  ultimately show False using assms(2) by simp
qed

lemma sorted_nth_upper:
  fixes xs :: "nat list"
  assumes "k < length xs"
  shows "length (filter (\<lambda>y. y < sort xs ! k) xs) \<le> k"
proof -
  let ?s = "sort xs" and ?m = "sort xs ! k"
  have "\<forall>y \<in> set (drop k ?s). \<not> y < ?m"
  proof
    fix y assume "y \<in> set (drop k ?s)"
    then obtain i where i: "i < length (drop k ?s)" "y = drop k ?s ! i"
      by (auto simp add: in_set_conv_nth)
    then have "y = ?s ! (k + i)" and "k + i < length ?s" by simp_all
    then have "?s ! k \<le> y" by (simp add: sorted_nth_mono)
    then show "\<not> y < ?m" by simp
  qed
  then have d: "filter (\<lambda>y. y < ?m) (drop k ?s) = []" by (simp add: filter_empty_conv)
  have "?s = take k ?s @ drop k ?s" by simp
  then have "filter (\<lambda>y. y < ?m) ?s = filter (\<lambda>y. y < ?m) (take k ?s) @ filter (\<lambda>y. y < ?m) (drop k ?s)"
    by (metis filter_append)
  with d have "length (filter (\<lambda>y. y < ?m) ?s) = length (filter (\<lambda>y. y < ?m) (take k ?s))"
    by simp
  also have "\<dots> \<le> length (take k ?s)" by (rule length_filter_le)
  also have "\<dots> \<le> k" by simp
  finally have "length (filter (\<lambda>y. y < ?m) ?s) \<le> k" .
  moreover have "length (filter (\<lambda>y. y < ?m) ?s) = length (filter (\<lambda>y. y < ?m) xs)"
    by (simp add: filter_sort)
  ultimately show ?thesis by simp
qed

lemma filter_take_le:
  "length (filter P (take n xs)) \<le> length (filter P (take (Suc n) xs))"
proof (cases "n < length xs")
  case True
  then have "take (Suc n) xs = take n xs @ [xs ! n]" by (simp add: take_Suc_conv_app_nth)
  then show ?thesis by simp
next
  case False
  then show ?thesis by simp
qed

lemma ancestors_from_step:
  "e_prev e = Some p \<Longrightarrow> ancestors_from e = e # ancestors_from p"
  by (cases e) simp

lemma ancestors_from_root:
  "e_prev e = None \<Longrightarrow> ancestors_from e = [e]"
  by (cases e) simp

lemma ancestors_from_nonempty [simp]: "ancestors_from e \<noteq> []"
  by (cases e) simp

lemma median_step:
  assumes "e_prev e = Some p" and "getMedianTime p < e_ts e"
  shows "getMedianTime p \<le> getMedianTime e"
proof -
  let ?A = "map e_ts (ancestors_from p)"
  let ?Lp = "take 11 ?A" and ?Le = "e_ts e # take 10 ?A"
  let ?m = "getMedianTime p"
  have Lp: "map e_ts (take 11 (ancestors_from p)) = ?Lp" by (simp add: take_map)
  have Le: "map e_ts (take 11 (ancestors_from e)) = ?Le"
    using assms(1) by (simp add: ancestors_from_step take_map numeral_eq_Suc)
  have ne: "?A \<noteq> []" by simp
  have mp: "?m = sort ?Lp ! (length ?Lp div 2)"
    by (simp add: getMedianTime_def Let_def Lp)
  have me: "getMedianTime e = sort ?Le ! (length ?Le div 2)"
    by (simp add: getMedianTime_def Let_def Le del: take_map)
  have lp: "length ?Lp div 2 < length ?Lp" using ne by (cases ?A) simp_all
  from sorted_nth_upper [OF lp] mp
  have c1: "length (filter (\<lambda>y. y < ?m) ?Lp) \<le> length ?Lp div 2" by simp
  have "length (filter (\<lambda>y. y < ?m) (take 10 ?A)) \<le> length (filter (\<lambda>y. y < ?m) (take (Suc 10) ?A))"
    by (rule filter_take_le)
  then have c2: "length (filter (\<lambda>y. y < ?m) (take 10 ?A)) \<le> length (filter (\<lambda>y. y < ?m) ?Lp)"
    by (simp add: numeral_eq_Suc)
  have c3: "length (filter (\<lambda>y. y < ?m) ?Le) = length (filter (\<lambda>y. y < ?m) (take 10 ?A))"
    using assms(2) by simp
  have len: "length ?Lp \<le> length ?Le" by simp
  then have "length ?Lp div 2 \<le> length ?Le div 2" by (rule div_le_mono)
  with c1 c2 c3 have c: "length (filter (\<lambda>y. y < ?m) ?Le) \<le> length ?Le div 2" by simp
  have le: "length ?Le div 2 < length ?Le" by simp
  from sorted_nth_lower [OF le c] me show ?thesis by simp
qed

lemma valid_chain_prev:
  "valid_chain e \<Longrightarrow> e_prev e = Some p \<Longrightarrow>
     valid_chain p \<and> e_height p = e_height e - 1 \<and> getMedianTime p < e_ts e"
  by (cases e) auto

lemma valid_chain_height: "valid_chain e \<Longrightarrow> 0 \<le> e_height e"
  by (cases e) auto

lemma valid_chain_ancestor:
  "valid_chain e \<Longrightarrow> a \<in> set (ancestors_from e) \<Longrightarrow>
     valid_chain a \<and> getMedianTime a \<le> getMedianTime e \<and> e_height a \<le> e_height e"
proof (induction e rule: ancestors_from.induct)
  case (1 h pb v t b ht cw pr)
  let ?e = "Entry h pb v t b ht cw pr"
  show ?case
  proof (cases "a = ?e")
    case True
    with "1.prems" show ?thesis by simp
  next
    case False
    with "1.prems" obtain p where p: "pr = Some p" "a \<in> set (ancestors_from p)"
      by (auto split: option.splits)
    from "1.prems"(1) p(1) have vp: "valid_chain p" "e_height p = ht - 1" "getMedianTime p < t"
      by simp_all
    from "1.IH" [OF p(1) vp(1) p(2)] have
      ih: "valid_chain a" "getMedianTime a \<le> getMedianTime p" "e_height a \<le> e_height p" by simp_all
    have "getMedianTime p \<le> getMedianTime ?e"
      by (rule median_step) (simp_all add: p vp)
    with ih vp show ?thesis by simp
  qed
qed

subsection \<open>Ancestors by height in a valid chain\<close>

lemma getAncestor_member:
  "getAncestor e target = Some a \<Longrightarrow> a \<in> set (ancestors_from e)"
  by (induction e target rule: getAncestor.induct) (auto split: if_splits option.splits)

lemma getAncestor_drop:
  "valid_chain e \<Longrightarrow> getAncestor e target = Some a \<Longrightarrow>
     nat (e_height e - target) < length (ancestors_from e)
     \<and> drop (nat (e_height e - target)) (ancestors_from e) = ancestors_from a"
proof (induction e target rule: getAncestor.induct)
  case (1 h pb v t b ht cw pr target)
  let ?e = "Entry h pb v t b ht cw pr"
  show ?case
  proof (cases "ht = target")
    case True
    with "1.prems" show ?thesis by (auto split: if_splits)
  next
    case False
    with "1.prems" obtain p where p: "pr = Some p" "getAncestor p target = Some a"
      and r: "\<not> (target < 0 \<or> target > ht)"
      by (auto split: if_splits option.splits)
    from "1.prems"(1) p(1) have vp: "valid_chain p" "e_height p = ht - 1" by simp_all
    from "1.IH" [OF r False p(1) vp(1) p(2)] have
      ih: "nat (e_height p - target) < length (ancestors_from p)"
        "drop (nat (e_height p - target)) (ancestors_from p) = ancestors_from a" by simp_all
    from r False have n: "nat (ht - target) = Suc (nat (ht - 1 - target))" by linarith
    from ih vp(2) p(1) n show ?thesis by simp
  qed
qed

lemma ancestors_from_subset:
  "a \<in> set (ancestors_from e) \<Longrightarrow> set (ancestors_from a) \<subseteq> set (ancestors_from e)"
proof (induction e rule: ancestors_from.induct)
  case (1 h pb v t b ht cw pr)
  show ?case
  proof (cases "a = Entry h pb v t b ht cw pr")
    case True
    then show ?thesis by simp
  next
    case False
    with "1.prems" obtain p where p: "pr = Some p" "a \<in> set (ancestors_from p)"
      by (auto split: option.splits)
    from "1.IH" [OF p] p(1) show ?thesis by auto
  qed
qed

subsection \<open>The counting loop counts the period\<close>

lemma count_loop_counts:
  "n < length (ancestors_from e) \<Longrightarrow>
     count_loop k d n e cnt =
       Inr (0 < n \<and> activationThreshold k
              \<le> cnt + int (length (filter (\<lambda>b. hasBit b (dep_bit d)) (take n (ancestors_from e)))))"
proof (induction n arbitrary: e cnt)
  case 0
  then show ?case by simp
next
  case (Suc n)
  let ?c = "(if hasBit e (dep_bit d) then cnt + 1 else cnt)"
  from Suc.prems obtain p where p: "e_prev e = Some p"
    by (cases "e_prev e") (simp_all add: ancestors_from_root)
  then have anc: "ancestors_from e = e # ancestors_from p" by (rule ancestors_from_step)
  with Suc.prems have len: "n < length (ancestors_from p)" by simp
  have mono: "?c \<le> ?c + int (length (filter (\<lambda>b. hasBit b (dep_bit d)) (take n (ancestors_from p))))"
    by simp
  have total: "cnt + int (length (filter (\<lambda>b. hasBit b (dep_bit d)) (take (Suc n) (ancestors_from e))))
      = ?c + int (length (filter (\<lambda>b. hasBit b (dep_bit d)) (take n (ancestors_from p))))"
    by (simp add: anc)
  show ?case
  proof (cases "activationThreshold k \<le> ?c")
    case True
    with mono total show ?thesis by (simp add: Let_def)
  next
    case False
    then have "count_loop k d (Suc n) e cnt = count_loop k d n p ?c"
      by (simp add: Let_def getPrevious_def p)
    also have "\<dots> = Inr (0 < n \<and> activationThreshold k
              \<le> ?c + int (length (filter (\<lambda>b. hasBit b (dep_bit d)) (take n (ancestors_from p)))))"
      by (rule Suc.IH [OF len])
    also have "\<dots> = Inr (0 < Suc n \<and> activationThreshold k
              \<le> cnt + int (length (filter (\<lambda>b. hasBit b (dep_bit d)) (take (Suc n) (ancestors_from e)))))"
      using False total by (cases n) simp_all
    finally show ?thesis .
  qed
qed

lemma bip9_state_pre: "bip9_state k d e = bip9_transition k d (pre_state k d e) e"
  by (subst bip9_state.simps) (simp add: pre_state_def)

lemma next_state_transition:
  assumes "0 < minerWindow k" "valid_chain e" "st = pre_state k d e"
  shows "next_state k d st e = Inr (bip9_transition k d st e)"
proof (cases st)
  case STARTED
  with assms obtain a where a: "getAncestor e (e_height e - minerWindow k) = Some a"
    by (auto simp add: pre_state_def split: if_splits option.splits)
  from getAncestor_drop [OF assms(2) a] have "nat (minerWindow k) < length (ancestors_from e)"
    by simp
  from count_loop_counts [OF this, of k d 0] assms(1) STARTED show ?thesis
    by (simp add: signalling_def)
qed simp_all

subsection \<open>Before the start time the state is DEFINED\<close>

lemma bip9_state_before_start:
  "valid_chain e \<Longrightarrow> dep_startTime d \<le> dep_timeout d \<Longrightarrow>
     int (getMedianTime e) < dep_startTime d \<Longrightarrow> bip9_state k d e = DEFINED"
proof (induction k d e rule: bip9_state.induct)
  case (1 k d entry)
  have "pre_state k d entry = DEFINED"
  proof (cases "minerWindow k \<le> 0")
    case True
    then show ?thesis by (simp add: pre_state_def)
  next
    case False
    show ?thesis
    proof (cases "getAncestor entry (e_height entry - minerWindow k)")
      case None
      with False show ?thesis by (simp add: pre_state_def)
    next
      case (Some a)
      from getAncestor_member [OF Some] "1.prems"(1)
      have "valid_chain a" "getMedianTime a \<le> getMedianTime entry"
        using valid_chain_ancestor by blast+
      with "1.IH" [OF False Some] "1.prems" have "bip9_state k d a = DEFINED" by simp
      with False Some show ?thesis by (simp add: pre_state_def)
    qed
  qed
  with "1.prems" show ?case by (simp add: bip9_state_pre)
qed

lemma cache_ok_update:
  assumes "cache_ok k d S cache" "inj_on e_hash S" "x \<in> S"
  shows "cache_ok k d S (cache((dep_bit d, e_hash x) \<mapsto> bip9_state k d x))"
  unfolding cache_ok_def
proof (intro ballI allI impI)
  fix y s
  assume y: "y \<in> S"
    and c: "(cache((dep_bit d, e_hash x) \<mapsto> bip9_state k d x)) (dep_bit d, e_hash y) = Some s"
  show "s = bip9_state k d y"
  proof (cases "e_hash y = e_hash x")
    case True
    with assms(2,3) y have "y = x" by (auto dest: inj_onD)
    with c show ?thesis by simp
  next
    case False
    with c have "cache (dep_bit d, e_hash y) = Some s" by simp
    with assms(1) y show ?thesis by (simp add: cache_ok_def)
  qed
qed

lemma compute_states_correct:
  assumes "0 < minerWindow k" "inj_on e_hash S"
  shows "compute_ok k d st compute \<Longrightarrow> set compute \<subseteq> S \<Longrightarrow> \<forall>x \<in> S. valid_chain x \<Longrightarrow>
     cache_ok k d S cache \<Longrightarrow>
     fst (compute_states k d compute st cache)
       = Inr (if compute = [] then st else bip9_state k d (last compute))
     \<and> cache_ok k d S (snd (compute_states k d compute st cache))"
proof (induction compute arbitrary: st cache)
  case Nil
  then show ?case by simp
next
  case (Cons b rest)
  from Cons.prems have st: "st = pre_state k d b" and rest: "compute_ok k d (bip9_state k d b) rest"
    and b: "b \<in> S" and sub: "set rest \<subseteq> S" by simp_all
  from Cons.prems(3) b have vb: "valid_chain b" by simp
  have ns: "next_state k d st b = Inr (bip9_state k d b)"
    using next_state_transition [OF assms(1) vb st] st by (simp add: bip9_state_pre)
  have c: "cache_ok k d S (cache((dep_bit d, e_hash b) \<mapsto> bip9_state k d b))"
    by (rule cache_ok_update [OF Cons.prems(4) assms(2) b])
  have cs: "compute_states k d (b # rest) st cache
      = compute_states k d rest (bip9_state k d b) (cache((dep_bit d, e_hash b) \<mapsto> bip9_state k d b))"
    using ns by simp
  have l: "(if b # rest = [] then st else bip9_state k d (last (b # rest)))
      = (if rest = [] then bip9_state k d b else bip9_state k d (last rest))" by simp
  show ?case unfolding cs l by (rule Cons.IH [OF rest sub Cons.prems(3) c])
qed

lemma walk_back_correct:
  "0 < minerWindow k \<Longrightarrow> dep_startTime d \<le> dep_timeout d \<Longrightarrow> inj_on e_hash S \<Longrightarrow>
   \<forall>x \<in> S. valid_chain x \<and> set (ancestors_from x) \<subseteq> S \<Longrightarrow>
   entry \<in> S \<Longrightarrow> set compute \<subseteq> S \<Longrightarrow> compute_ok k d (bip9_state k d entry) compute \<Longrightarrow>
   cache_ok k d S cache \<Longrightarrow>
     \<exists>st compute' cache'.
        walk_back k d cache entry compute = (Inr (st, compute'), cache')
        \<and> compute_ok k d st compute' \<and> set compute' \<subseteq> S \<and> cache_ok k d S cache'
        \<and> (if compute' = [] then st = bip9_state k d entry \<and> compute = []
            else last compute' = last (entry # compute))"
proof (induction k d cache entry compute rule: walk_back.induct)
  case (1 k d cache entry compute)
  note win0 = "1.prems"(1) and st_to = "1.prems"(2) and inj = "1.prems"(3)
    and closed = "1.prems"(4) and eS = "1.prems"(5) and cS = "1.prems"(6)
    and cok = "1.prems"(7) and cache = "1.prems"(8)
  from eS closed have ve: "valid_chain entry"
    and anc: "set (ancestors_from entry) \<subseteq> S" by simp_all
  show ?case
  proof (cases "cache (dep_bit d, e_hash entry)")
    case (Some cached)
    with eS cache have s: "cached = bip9_state k d entry" by (simp add: cache_ok_def)
    have w: "walk_back k d cache entry compute = (Inr (cached, compute), cache)"
      by (subst walk_back.simps) (simp add: Some)
    from w s cS cok cache show ?thesis by (cases compute) auto
  next
    case None
    note nocache = None
    show ?thesis
    proof (cases "int (getMedianTime entry) < dep_startTime d")
      case True
      have s: "bip9_state k d entry = DEFINED"
        by (rule bip9_state_before_start [OF ve st_to True])
      have w: "walk_back k d cache entry compute
          = (Inr (DEFINED, compute), cache((dep_bit d, e_hash entry) \<mapsto> DEFINED))"
        by (subst walk_back.simps) (simp add: nocache True)
      have c: "cache_ok k d S (cache((dep_bit d, e_hash entry) \<mapsto> DEFINED))"
        using cache_ok_update [OF cache inj eS] s by simp
      from w s c cS cok show ?thesis by (cases compute) auto
    next
      case False
      note late = False
      have win: "\<not> minerWindow k \<le> 0" using win0 by simp
      show ?thesis
      proof (cases "getAncestor entry (e_height entry - minerWindow k)")
        case None
        have w: "walk_back k d cache entry compute = (Inr (DEFINED, entry # compute), cache)"
          by (subst walk_back.simps) (simp add: nocache late win None)
        have p: "pre_state k d entry = DEFINED" using win None by (simp add: pre_state_def)
        from w p eS cS cok cache show ?thesis by simp
      next
        case (Some a)
        have w: "walk_back k d cache entry compute = walk_back k d cache a (entry # compute)"
          by (subst walk_back.simps) (simp add: nocache late win Some)
        from getAncestor_member [OF Some] anc have a: "a \<in> S" by blast
        have p: "pre_state k d entry = bip9_state k d a" using win Some by (simp add: pre_state_def)
        have ok: "compute_ok k d (bip9_state k d a) (entry # compute)"
          using p cok by simp
        have sub: "set (entry # compute) \<subseteq> S" using eS cS by simp
        from "1.IH" [OF nocache late win Some win0 st_to inj closed a sub ok cache]
        obtain st compute' cache' where
          r: "walk_back k d cache a (entry # compute) = (Inr (st, compute'), cache')"
            "compute_ok k d st compute'" "set compute' \<subseteq> S" "cache_ok k d S cache'"
            "(if compute' = [] then st = bip9_state k d a \<and> entry # compute = []
              else last compute' = last (a # entry # compute))"
          by blast
        from r(5) have ne: "compute' \<noteq> []" and l: "last compute' = last (entry # compute)"
          by (auto split: if_splits)
        from w r(1-4) ne l show ?thesis by simp
      qed
    qed
  qed
qed

lemma js_rem_mod: "0 \<le> a \<Longrightarrow> 0 < b \<Longrightarrow> js_rem a b = a mod b"
  by (simp add: js_rem_def)

text \<open>
  Claim C5. On a valid chain with distinct hashes, with a window of at least one block,
  a start time not after the timeout, and a cache that holds no wrong state for the
  ancestors of \<open>prev\<close>, \<open>getState\<close> returns the BIP9 state of the specification:
  \<open>DEFINED\<close> without a previous entry or before the first boundary, and from there
  one transition per period boundary, read from the median time past of the boundary
  entry and the version bits of the blocks of its period. The state is a function of the
  entries alone: the cache does not enter it, and it is left without a wrong state.
\<close>

theorem getState_bip9:
  assumes "0 < minerWindow k" and "dep_startTime d \<le> dep_timeout d"
    and "valid_chain p" and "distinct (map e_hash (ancestors_from p))"
    and "cache_ok k d (set (ancestors_from p)) cache"
  shows "getState k d cache None = (Inr DEFINED, cache)
     \<and> fst (getState k d cache (Some p)) = Inr (bip9_at k d (Some p))
     \<and> cache_ok k d (set (ancestors_from p)) (snd (getState k d cache (Some p)))"
proof -
  let ?S = "set (ancestors_from p)"
  have inj: "inj_on e_hash ?S" using assms(4) by (simp add: distinct_map)
  have closed: "\<forall>x \<in> ?S. valid_chain x \<and> set (ancestors_from x) \<subseteq> ?S"
    using valid_chain_ancestor [OF assms(3)] ancestors_from_subset by blast
  have pS: "p \<in> ?S" by (rule ancestors_from_self)
  have h: "0 \<le> e_height p + 1" using valid_chain_height [OF assms(3)] by simp
  have rem: "js_rem (e_height p + 1) (minerWindow k) = (e_height p + 1) mod minerWindow k"
    by (rule js_rem_mod [OF h assms(1)])
  have aligned: "(if js_rem (e_height p + 1) (minerWindow k) \<noteq> 0
                   then getAncestor p (e_height p - js_rem (e_height p + 1) (minerWindow k))
                   else Some p) = boundary k p"
    by (simp add: rem boundary_def)
  have none: "getState k d cache None = (Inr DEFINED, cache)" by (simp add: getState_def)
  have some: "fst (getState k d cache (Some p)) = Inr (bip9_at k d (Some p))
     \<and> cache_ok k d ?S (snd (getState k d cache (Some p)))"
  proof (cases "boundary k p")
    case None
    with assms(1,5) aligned show ?thesis by (simp add: getState_def bip9_at_def)
  next
    case (Some entry)
    have eS: "entry \<in> ?S"
    proof (cases "(e_height p + 1) mod minerWindow k = 0")
      case True
      with Some pS show ?thesis by (simp add: boundary_def)
    next
      case False
      with Some have "getAncestor p (e_height p - (e_height p + 1) mod minerWindow k) = Some entry"
        by (simp add: boundary_def)
      then show ?thesis by (rule getAncestor_member)
    qed
    have "compute_ok k d (bip9_state k d entry) []" and "set [] \<subseteq> ?S" by simp_all
    from walk_back_correct [OF assms(1,2) inj closed eS this(2,1) assms(5)]
    obtain st compute' cache' where
      w: "walk_back k d cache entry [] = (Inr (st, compute'), cache')"
      and ok: "compute_ok k d st compute'" and sub: "set compute' \<subseteq> ?S"
      and c: "cache_ok k d ?S cache'"
      and l: "(if compute' = [] then st = bip9_state k d entry \<and> ([]::entry list) = []
               else last compute' = last [entry])"
      by blast
    from closed have v: "\<forall>x \<in> ?S. valid_chain x" by simp
    from compute_states_correct [OF assms(1) inj ok sub v c]
    have cs: "fst (compute_states k d compute' st cache')
         = Inr (if compute' = [] then st else bip9_state k d (last compute'))"
      and cc: "cache_ok k d ?S (snd (compute_states k d compute' st cache'))" by simp_all
    from l have fin: "(if compute' = [] then st else bip9_state k d (last compute')) = bip9_state k d entry"
      by (auto split: if_splits)
    have g: "getState k d cache (Some p) = compute_states k d compute' st cache'"
      using assms(1) aligned Some w by (simp add: getState_def)
    from g cs cc fin Some show ?thesis by (simp add: bip9_at_def)
  qed
  from none some show ?thesis by simp
qed

theorem getState_bip9_witness:
  "0 < minerWindow ex_bits \<and> dep_startTime ex_deployment \<le> dep_timeout ex_deployment
   \<and> valid_chain ex_v6 \<and> distinct (map e_hash (ancestors_from ex_v6))
   \<and> fst (getState ex_bits ex_deployment Map.empty (Some ex_v6)) = Inr ACTIVE
   \<and> fst (getState ex_bits ex_deployment Map.empty (Some ex_v4)) = Inr LOCKED_IN
   \<and> fst (getState ex_bits ex_deployment Map.empty (Some ex_v2)) = Inr STARTED
   \<and> fst (getState ex_bits ex_deployment Map.empty (Some ex_v0)) = Inr DEFINED"
proof -
  have h1: "0 < minerWindow ex_bits" and h2: "dep_startTime ex_deployment \<le> dep_timeout ex_deployment"
    by (simp_all add: ex_v_defs)
  have h3: "valid_chain ex_v6" by (simp add: ex_v_defs getMedianTime_def)
  have h4: "distinct (map e_hash (ancestors_from ex_v6))" by (simp add: ex_v_defs)
  have h5: "cache_ok ex_bits ex_deployment (set (ancestors_from ex_v6)) Map.empty"
    by (simp add: cache_ok_def)
  have v: "valid_chain ex_v4" "valid_chain ex_v2" "valid_chain ex_v0"
    by (simp_all add: ex_v_defs getMedianTime_def)
  have ds: "distinct (map e_hash (ancestors_from ex_v4))" "distinct (map e_hash (ancestors_from ex_v2))"
    "distinct (map e_hash (ancestors_from ex_v0))" by (simp_all add: ex_v_defs)
  have cs: "cache_ok ex_bits ex_deployment (set (ancestors_from ex_v4)) Map.empty"
    "cache_ok ex_bits ex_deployment (set (ancestors_from ex_v2)) Map.empty"
    "cache_ok ex_bits ex_deployment (set (ancestors_from ex_v0)) Map.empty"
    by (simp_all add: cache_ok_def)
  have r: "bip9_at ex_bits ex_deployment (Some ex_v6) = ACTIVE"
    "bip9_at ex_bits ex_deployment (Some ex_v4) = LOCKED_IN"
    "bip9_at ex_bits ex_deployment (Some ex_v2) = STARTED"
    "bip9_at ex_bits ex_deployment (Some ex_v0) = DEFINED"
    by (simp_all add: bip9_at_def boundary_def bip9_state.simps ex_v_defs getMedianTime_def
        signalling_def hasBit_def)
  from getState_bip9 [OF h1 h2 h3 h4 h5] getState_bip9 [OF h1 h2 v(1) ds(1) cs(1)]
    getState_bip9 [OF h1 h2 v(2) ds(2) cs(2)] getState_bip9 [OF h1 h2 v(3) ds(3) cs(3)]
    h1 h2 h3 h4 r
  show ?thesis by simp
qed


subsection \<open>The block template builder\<close>

subsection \<open>The queue of the builder\<close>

lemma set_queue_push [simp]: "set (queue_push m items prio q i) = insert i (set q)"
proof -
  have "set (take n q) \<union> set (drop n q) = set q" for n
    by (metis append_take_drop_id set_append)
  then show ?thesis by (auto simp add: queue_push_def Let_def)
qed

lemma distinct_insert_mid:
  "distinct (xs @ [i] @ ys) = (distinct (xs @ ys) \<and> i \<notin> set (xs @ ys))"
  by auto

lemma distinct_queue_push [simp]:
  "distinct (queue_push m items prio q i) = (distinct q \<and> i \<notin> set q)"
proof -
  have "distinct (take n q @ [i] @ drop n q) = (distinct q \<and> i \<notin> set q)" for n
    using distinct_insert_mid [of "take n q" i "drop n q"] by simp
  then show ?thesis by (simp add: queue_push_def Let_def)
qed

subsection \<open>The first loop\<close>

lemma deps_of_update:
  "deps_of (AList.update k v dm) h = (if h = k then v else deps_of dm h)"
  by (simp add: deps_of_def update_conv')

lemma count_deps_effect:
  "count_deps mh i ps c dm = (c', dm') \<Longrightarrow>
     c' = c + int (length (filter (\<lambda>h. h \<in> set mh) ps))
     \<and> (\<forall>h. deps_of dm' h = deps_of dm h @ replicate (count_list (filter (\<lambda>h. h \<in> set mh) ps) h) i)"
proof (induction ps arbitrary: c dm)
  case Nil
  then show ?case by simp
next
  case (Cons p ps)
  show ?case
  proof (cases "p \<in> set mh")
    case False
    with Cons.prems have "count_deps mh i ps c dm = (c', dm')" by simp
    from Cons.IH [OF this] False show ?thesis by simp
  next
    case True
    let ?dm = "AList.update p (deps_of dm p @ [i]) dm"
    from True Cons.prems have "count_deps mh i ps (c + 1) ?dm = (c', dm')" by simp
    from Cons.IH [OF this] have c': "c' = c + 1 + int (length (filter (\<lambda>h. h \<in> set mh) ps))"
      and d: "\<forall>h. deps_of dm' h = deps_of ?dm h @ replicate (count_list (filter (\<lambda>h. h \<in> set mh) ps) h) i"
      by simp_all
    have "deps_of dm' h = deps_of dm h @ replicate (count_list (filter (\<lambda>h. h \<in> set mh) (p # ps)) h) i" for h
      using d True by (simp add: deps_of_update replicate_app_Cons_same)
    with c' True show ?thesis by simp
  qed
qed

lemma count_list_replicate: "count_list (replicate n x) y = (if x = y then n else 0)"
  by (induction n) auto

lemma init_loop_effect:
  "init_loop m items i rest q dc dm = Inr (q', dc', dm') \<Longrightarrow>
   items = seen @ rest \<Longrightarrow> i = length seen \<Longrightarrow>
   depmap_ok items i dm \<Longrightarrow> distinct q \<Longrightarrow>
   (\<forall>j \<in> set q. j < i \<and> dc j = 0) \<Longrightarrow>
   (\<forall>j < i. dc j = int (length (mempool_parents items j))) \<Longrightarrow>
     depmap_ok items (length items) dm' \<and> distinct q'
     \<and> (\<forall>j \<in> set q'. j < length items \<and> dc' j = 0)
     \<and> (\<forall>j < length items. dc' j = int (length (mempool_parents items j)))"
proof (induction m items i rest q dc dm arbitrary: seen rule: init_loop.induct)
  case (1 m items i q dc dm)
  then show ?case by simp
next
  case (2 m items i it rest q dc dm)
  from "2.prems"(1) have nc: "\<not> it_isCoinbase it" by (auto split: if_splits)
  obtain c dm1 where cd: "count_deps (map it_hash items) i (it_prevouts it) 0 dm = (c, dm1)"
    by (cases "count_deps (map it_hash items) i (it_prevouts it) 0 dm")
  from "2.prems"(2,3) have iti: "items ! i = it" and ilt: "i < length items" by simp_all
  from count_deps_effect [OF cd] iti have c: "c = int (length (mempool_parents items i))"
    and d1: "\<forall>h. deps_of dm1 h = deps_of dm h @ replicate (count_list (mempool_parents items i) h) i"
    by (simp_all add: mempool_parents_def)
  have ok1: "depmap_ok items (Suc i) dm1"
    unfolding depmap_ok_def
  proof (intro allI conjI impI)
    fix h
    from "2.prems"(4) have "set (deps_of dm h) \<subseteq> {..<i}" by (simp add: depmap_ok_def)
    with d1 show "set (deps_of dm1 h) \<subseteq> {..<Suc i}" by auto
  next
    fix h j assume j: "j < Suc i"
    show "count_list (deps_of dm1 h) j = count_list (mempool_parents items j) h"
    proof (cases "j = i")
      case True
      from "2.prems"(4) have "set (deps_of dm h) \<subseteq> {..<i}" by (simp add: depmap_ok_def)
      then have "i \<notin> set (deps_of dm h)" by auto
      then have "count_list (deps_of dm h) i = 0" by (simp add: count_list_0_iff)
      with d1 True show ?thesis by (simp add: count_list_replicate)
    next
      case False
      with j have "j < i" by simp
      with "2.prems"(4) have "count_list (deps_of dm h) j = count_list (mempool_parents items j) h"
        by (simp add: depmap_ok_def)
      with d1 False show ?thesis by (simp add: count_list_replicate)
    qed
  qed
  have split: "items = (seen @ [it]) @ rest" "Suc i = length (seen @ [it])"
    using "2.prems"(2,3) by simp_all
  have dcs: "\<forall>j < Suc i. (dc(i := c)) j = int (length (mempool_parents items j))"
    using "2.prems"(7) c by (simp add: less_Suc_eq)
  show ?case
  proof (cases "c > 0")
    case True
    with "2.prems"(1) nc cd have
      r: "init_loop m items (Suc i) rest q (dc(i := c)) dm1 = Inr (q', dc', dm')" by simp
    have qs: "\<forall>j \<in> set q. j < Suc i \<and> (dc(i := c)) j = 0"
      using "2.prems"(6) by auto
    from "2.IH"(1) [OF nc cd [symmetric] True r split ok1 "2.prems"(5) qs dcs]
    show ?thesis .
  next
    case False
    with "2.prems"(1) nc cd have
      r: "init_loop m items (Suc i) rest (queue_push m items True q i) (dc(i := c)) dm1
            = Inr (q', dc', dm')" by simp
    from False c have c0: "c = 0" by simp
    have dq: "distinct (queue_push m items True q i)"
      using "2.prems"(5,6) by auto
    have qs: "\<forall>j \<in> set (queue_push m items True q i). j < Suc i \<and> (dc(i := c)) j = 0"
      using "2.prems"(6) c0 by auto
    from "2.IH"(2) [OF nc cd [symmetric] False r split ok1 dq qs dcs]
    show ?thesis .
  qed
qed

subsection \<open>Releasing the dependents\<close>

lemma release_effect:
  "release m items prio js dc q = (dc', q') \<Longrightarrow>
   (\<forall>j \<in> set js. int (count_list js j) \<le> dc j) \<Longrightarrow>
   distinct q \<Longrightarrow> set js \<inter> set q = {} \<Longrightarrow>
     (\<forall>i. dc' i = dc i - int (count_list js i))
     \<and> distinct q' \<and> set q' = set q \<union> {i \<in> set js. dc i = int (count_list js i)}"
proof (induction js arbitrary: dc q)
  case Nil
  then show ?case by simp
next
  case (Cons j js)
  define dcu where "dcu = dc(j := dc j - 1)"
  from Cons.prems(2) have cj: "int (count_list js j) + 1 \<le> dc j" by simp
  have pre: "\<forall>i \<in> set js. int (count_list js i) \<le> dcu i"
  proof
    fix i assume i: "i \<in> set js"
    show "int (count_list js i) \<le> dcu i"
    proof (cases "i = j")
      case True
      with cj show ?thesis by (simp add: dcu_def)
    next
      case False
      from Cons.prems(2) i have "int (count_list (j # js) i) \<le> dc i" by (simp del: count_list.simps)
      with False show ?thesis by (simp add: dcu_def)
    qed
  qed
  have eqv: "(dcu i = int (count_list js i)) = (dc i = int (count_list (j # js) i))" for i
    by (auto simp add: dcu_def)
  have dcs: "dcu i - int (count_list js i) = dc i - int (count_list (j # js) i)" for i
    by (simp add: dcu_def)
  from Cons.prems(4) have jq: "j \<notin> set q" and jsq: "set js \<inter> set q = {}" by auto
  show ?case
  proof (cases "dc j - 1 = 0")
    case True
    with cj have "count_list js j = 0" by simp
    then have jjs: "j \<notin> set js" by (simp add: count_list_0_iff)
    from True Cons.prems(1) have
      r: "release m items prio js dcu (queue_push m items prio q j) = (dc', q')"
      by (simp add: dcu_def)
    have d: "distinct (queue_push m items prio q j)" using Cons.prems(3) jq by simp
    have i: "set js \<inter> set (queue_push m items prio q j) = {}" using jsq jjs by simp
    from Cons.IH [OF r pre d i]
    have a: "\<forall>i. dc' i = dcu i - int (count_list js i)" and b: "distinct q'"
      and c: "set q' = insert j (set q) \<union> {i \<in> set js. dcu i = int (count_list js i)}"
      by simp_all
    from True jjs have "dc j = int (count_list (j # js) j)" by simp
    with c have "set q' = set q \<union> {i \<in> set (j # js). dc i = int (count_list (j # js) i)}"
      unfolding eqv by auto
    with a b show ?thesis unfolding dcs by simp
  next
    case False
    with Cons.prems(1) have r: "release m items prio js dcu q = (dc', q')"
      by (simp add: dcu_def)
    from Cons.IH [OF r pre Cons.prems(3) jsq]
    have a: "\<forall>i. dc' i = dcu i - int (count_list js i)" and b: "distinct q'"
      and c: "set q' = set q \<union> {i \<in> set js. dcu i = int (count_list js i)}"
      by simp_all
    have "dc j = int (count_list (j # js) j) \<Longrightarrow> j \<in> set js"
    proof -
      assume "dc j = int (count_list (j # js) j)"
      with False have "count_list js j \<noteq> 0" by simp
      then show ?thesis by (simp add: count_list_0_iff)
    qed
    with c have "set q' = set q \<union> {i \<in> set (j # js). dc i = int (count_list (j # js) i)}"
      unfolding eqv by auto
    with a b show ?thesis unfolding dcs by simp
  qed
qed

subsection \<open>One round\<close>

lemma build_step_cases:
  assumes "build_step m items dm s = Some s'"
  obtains
    (skip) "bs_queue s \<noteq> []" "s' = s\<lparr>bs_queue := butlast (bs_queue s)\<rparr>"
  | (switch) "bs_queue s \<noteq> []" "bs_priority s"
      "s' = s\<lparr>bs_queue := queue_push m items False (butlast (bs_queue s)) (last (bs_queue s)),
              bs_priority := False\<rparr>"
  | (accept) dc q where "bs_queue s \<noteq> []"
      "release m items (bs_priority s) (deps_of dm (it_hash (items ! last (bs_queue s))))
         (bs_depCount s) (butlast (bs_queue s)) = (dc, q)"
      "bs_txs s' = bs_txs s @ [last (bs_queue s)]" "bs_depCount s' = dc" "bs_queue s' = q"
proof -
  from assms have ne: "bs_queue s \<noteq> []" by (auto simp add: build_step_def split: if_splits)
  let ?i = "last (bs_queue s)"
  show ?thesis
  proof (cases "map_of dm (it_hash (items ! ?i))")
    case None
    then have d: "deps_of dm (it_hash (items ! ?i)) = []" by (simp add: deps_of_def)
    from assms ne None show ?thesis
      by (simp add: build_step_def Let_def split: if_splits)
         (auto intro: skip switch accept simp add: d)
  next
    case (Some deps)
    then have d: "deps_of dm (it_hash (items ! ?i)) = deps" by (simp add: deps_of_def)
    obtain dc q where r: "release m items (bs_priority s) deps (bs_depCount s) (butlast (bs_queue s)) = (dc, q)"
      by (cases "release m items (bs_priority s) deps (bs_depCount s) (butlast (bs_queue s))")
    from assms ne Some r show ?thesis
      by (simp add: build_step_def Let_def split: if_splits)
         (auto intro: skip switch accept simp add: d)
  qed
qed

subsection \<open>Pending parents\<close>

lemma count_list_filter: "count_list (filter P xs) h = (if P h then count_list xs h else 0)"
  by (induction xs) auto

lemma length_filter_neq:
  "int (length (filter (\<lambda>h. h \<noteq> x) xs)) = int (length xs) - int (count_list xs x)"
  by (induction xs) auto

lemma count_list_le_length: "count_list xs x \<le> length xs"
  by (induction xs) auto

lemma pending_parents_append:
  "pending_parents items (txs @ [i]) j = filter (\<lambda>h. h \<noteq> it_hash (items ! i)) (pending_parents items txs j)"
  by (auto simp add: pending_parents_def block_hashes_def intro: filter_cong)

lemma hash_not_in_block:
  assumes "distinct (map it_hash items)" "i < length items" "i \<notin> set txs"
    "\<forall>j \<in> set txs. j < length items"
  shows "it_hash (items ! i) \<notin> set (block_hashes items txs)"
proof
  assume "it_hash (items ! i) \<in> set (block_hashes items txs)"
  then obtain j where j: "j \<in> set txs" and e: "it_hash (items ! j) = it_hash (items ! i)"
    by (auto simp add: block_hashes_def)
  from j assms(4) have jl: "j < length items" by simp
  from e jl assms(2) have "map it_hash items ! j = map it_hash items ! i" by simp
  with nth_eq_iff_index_eq [OF assms(1), of j i] jl assms(2) have "j = i" by simp
  with j assms(3) show False by simp
qed

lemma dependency_order_append:
  assumes "dependency_order items txs" "pending_parents items txs i = []"
  shows "dependency_order items (txs @ [i])"
  unfolding dependency_order_def
proof (intro allI impI)
  fix k assume k: "k < length (txs @ [i])"
  show "set (mempool_parents items ((txs @ [i]) ! k)) \<subseteq> set (block_hashes items (take k (txs @ [i])))"
  proof (cases "k < length txs")
    case True
    with assms(1) show ?thesis by (simp add: dependency_order_def nth_append)
  next
    case False
    with k have kl: "k = length txs" by simp
    from assms(2) have "set (mempool_parents items i) \<subseteq> set (block_hashes items txs)"
      by (auto simp add: pending_parents_def filter_empty_conv)
    with kl show ?thesis by simp
  qed
qed

subsection \<open>The invariant holds round after round\<close>

lemma accept_release:
  assumes dist: "distinct (map it_hash items)"
    and dm: "depmap_ok items (length items) dm"
    and inv: "build_inv items s"
    and ne: "bs_queue s \<noteq> []"
    and deps: "deps = deps_of dm (it_hash (items ! last (bs_queue s)))"
    and r: "release m items prio deps (bs_depCount s) (butlast (bs_queue s)) = (dc, q)"
  shows "\<forall>j. dc j = bs_depCount s j - int (count_list deps j)"
    and "distinct q"
    and "set q = set (butlast (bs_queue s)) \<union> {j \<in> set deps. bs_depCount s j = int (count_list deps j)}"
    and "\<forall>j \<in> set deps. j < length items \<and> 0 < bs_depCount s j"
    and "\<forall>j < length items. count_list deps j
           = count_list (pending_parents items (bs_txs s) j) (it_hash (items ! last (bs_queue s)))"
proof -
  let ?i = "last (bs_queue s)"
  let ?h = "it_hash (items ! ?i)"
  let ?n = "length items"
  from inv have d: "distinct (bs_queue s @ bs_txs s)"
    and z: "\<forall>i \<in> set (bs_queue s) \<union> set (bs_txs s). i < ?n \<and> bs_depCount s i = 0"
    and p: "\<forall>i < ?n. bs_depCount s i = int (length (pending_parents items (bs_txs s) i))"
    by (simp_all add: build_inv_def)
  from ne have iq: "?i \<in> set (bs_queue s)" by simp
  with z have il: "?i < ?n" by simp
  from d iq have it: "?i \<notin> set (bs_txs s)" by auto
  from z have tl: "\<forall>j \<in> set (bs_txs s). j < ?n" by simp
  have hn: "?h \<notin> set (block_hashes items (bs_txs s))"
    by (rule hash_not_in_block [OF dist il it tl])
  from dm deps have dsub: "set deps \<subseteq> {..<?n}"
    and dcount: "\<forall>j < ?n. count_list deps j = count_list (mempool_parents items j) ?h"
    by (simp_all add: depmap_ok_def)
  have cp: "count_list deps j = count_list (pending_parents items (bs_txs s) j) ?h" if "j < ?n" for j
    using dcount that hn by (simp add: pending_parents_def count_list_filter)
  then show "\<forall>j < ?n. count_list deps j = count_list (pending_parents items (bs_txs s) j) ?h" by simp
  have pre: "\<forall>j \<in> set deps. int (count_list deps j) \<le> bs_depCount s j"
  proof
    fix j assume "j \<in> set deps"
    with dsub have jl: "j < ?n" by auto
    have "count_list (pending_parents items (bs_txs s) j) ?h \<le> length (pending_parents items (bs_txs s) j)"
      by (rule count_list_le_length)
    with cp [OF jl] p jl show "int (count_list deps j) \<le> bs_depCount s j" by simp
  qed
  have pos: "0 < bs_depCount s j" if "j \<in> set deps" for j
  proof -
    from that have "count_list deps j \<noteq> 0" by (simp add: count_list_0_iff)
    with pre that show ?thesis by fastforce
  qed
  with dsub show "\<forall>j \<in> set deps. j < ?n \<and> 0 < bs_depCount s j" by auto
  have dq: "distinct (butlast (bs_queue s))" using d by (simp add: distinct_butlast)
  have disj: "set deps \<inter> set (butlast (bs_queue s)) = {}"
  proof -
    { fix j assume a: "j \<in> set deps" and b: "j \<in> set (butlast (bs_queue s))"
      from b have "j \<in> set (bs_queue s)" by (rule in_set_butlastD)
      with z have "bs_depCount s j = 0" by simp
      with pos [OF a] have False by simp }
    then show ?thesis by auto
  qed
  from release_effect [OF r pre dq disj]
  show "\<forall>j. dc j = bs_depCount s j - int (count_list deps j)"
    and "distinct q"
    and "set q = set (butlast (bs_queue s)) \<union> {j \<in> set deps. bs_depCount s j = int (count_list deps j)}"
    by simp_all
qed

lemma build_step_inv:
  assumes dist: "distinct (map it_hash items)"
    and dm: "depmap_ok items (length items) dm"
    and inv: "build_inv items s"
    and step: "build_step m items dm s = Some s'"
  shows "build_inv items s'"
  using step
proof (cases rule: build_step_cases)
  case skip
  from inv have "distinct (butlast (bs_queue s) @ bs_txs s)"
    by (auto simp add: build_inv_def distinct_butlast dest: in_set_butlastD)
  moreover from inv have "\<forall>i \<in> set (butlast (bs_queue s)) \<union> set (bs_txs s).
      i < length items \<and> bs_depCount s i = 0"
    by (auto simp add: build_inv_def dest: in_set_butlastD)
  ultimately show ?thesis using inv skip(2) by (simp add: build_inv_def)
next
  case switch
  from switch(1) have q: "bs_queue s = butlast (bs_queue s) @ [last (bs_queue s)]" by simp
  from inv have d: "distinct (bs_queue s @ bs_txs s)" by (simp add: build_inv_def)
  have "distinct ((butlast (bs_queue s) @ [last (bs_queue s)]) @ bs_txs s)"
    using d q by simp
  then have d': "distinct (queue_push m items False (butlast (bs_queue s)) (last (bs_queue s)) @ bs_txs s)"
    by auto
  have s': "set (queue_push m items False (butlast (bs_queue s)) (last (bs_queue s))) = set (bs_queue s)"
    using q by (metis Un_insert_right append_Nil2 list.simps(15) set_append set_queue_push)
  from inv d' s' switch(3) show ?thesis by (simp add: build_inv_def)
next
  case (accept dc q)
  let ?i = "last (bs_queue s)"
  let ?h = "it_hash (items ! ?i)"
  let ?deps = "deps_of dm ?h"
  let ?n = "length items"
  from accept(1) have qs: "bs_queue s = butlast (bs_queue s) @ [?i]" by simp
  from inv have d: "distinct (bs_queue s @ bs_txs s)"
    and z: "\<forall>i \<in> set (bs_queue s) \<union> set (bs_txs s). i < ?n \<and> bs_depCount s i = 0"
    and p: "\<forall>i < ?n. bs_depCount s i = int (length (pending_parents items (bs_txs s) i))"
    and o: "dependency_order items (bs_txs s)"
    by (simp_all add: build_inv_def)
  from accept(1) have iq: "?i \<in> set (bs_queue s)" by simp
  with z have il: "?i < ?n" and i0: "bs_depCount s ?i = 0" by simp_all
  from d iq have it: "?i \<notin> set (bs_txs s)" by auto
  from d qs have ib: "?i \<notin> set (butlast (bs_queue s))"
    by (metis distinct_append distinct_butlast not_distinct_conv_prefix append.assoc append_Cons append_Nil)
  note rel = accept_release [OF dist dm inv accept(1) refl accept(2)]
  note dc = rel(1) and dq' = rel(2) and sq = rel(3)
  from rel(4) have pos: "0 < bs_depCount s j" if "j \<in> set ?deps" for j using that by simp
  from rel(4) have dsub: "\<forall>j \<in> set ?deps. j < ?n" by simp
  from rel(5) have cp: "count_list ?deps j = count_list (pending_parents items (bs_txs s) j) ?h"
    if "j < ?n" for j using that by simp
  have nodep: "count_list ?deps j = 0" if "bs_depCount s j = 0" for j
  proof (rule ccontr)
    assume "count_list ?deps j \<noteq> 0"
    then have "j \<in> set ?deps" by (simp add: count_list_0_iff)
    from pos [OF this] that show False by simp
  qed
  have c1: "distinct (q @ bs_txs s @ [?i])"
  proof -
    { fix j assume jq: "j \<in> set q" and jt: "j \<in> set (bs_txs s) \<or> j = ?i"
      from jt z iq have j0: "bs_depCount s j = 0" by auto
      from jq sq have "j \<in> set (butlast (bs_queue s)) \<or> j \<in> set ?deps" by auto
      then have False
      proof
        assume b: "j \<in> set (butlast (bs_queue s))"
        then have "j \<in> set (bs_queue s)" by (rule in_set_butlastD)
        with d have "j \<notin> set (bs_txs s)" by auto
        with jt b ib show False by auto
      next
        assume "j \<in> set ?deps"
        from pos [OF this] j0 show False by simp
      qed }
    then have "set q \<inter> set (bs_txs s @ [?i]) = {}" by auto
    moreover from d it have "distinct (bs_txs s @ [?i])" by simp
    ultimately show ?thesis using dq' by simp
  qed
  have c2: "\<forall>j \<in> set q \<union> set (bs_txs s @ [?i]). j < ?n \<and> dc j = 0"
  proof
    fix j assume "j \<in> set q \<union> set (bs_txs s @ [?i])"
    then consider (old) "j \<in> set (bs_queue s) \<union> set (bs_txs s)"
      | (new) "j \<in> set ?deps" "bs_depCount s j = int (count_list ?deps j)"
      using sq iq by (auto dest: in_set_butlastD)
    then show "j < ?n \<and> dc j = 0"
    proof cases
      case old
      with z have "j < ?n" "bs_depCount s j = 0" by simp_all
      with nodep dc show ?thesis by simp
    next
      case new
      with dsub dc show ?thesis by auto
    qed
  qed
  have c3: "\<forall>j < ?n. dc j = int (length (pending_parents items (bs_txs s @ [?i]) j))"
  proof (intro allI impI)
    fix j assume jl: "j < ?n"
    have "int (length (pending_parents items (bs_txs s @ [?i]) j))
        = int (length (pending_parents items (bs_txs s) j)) - int (count_list (pending_parents items (bs_txs s) j) ?h)"
      by (simp only: pending_parents_append length_filter_neq)
    with dc p jl cp [OF jl] show "dc j = int (length (pending_parents items (bs_txs s @ [?i]) j))" by simp
  qed
  from p il i0 have "pending_parents items (bs_txs s) ?i = []" by simp
  from dependency_order_append [OF o this]
  have c4: "dependency_order items (bs_txs s @ [?i])" .
  from c1 c2 c3 c4 accept(3,4,5) show ?thesis by (simp add: build_inv_def)
qed

lemma build_loop_inv:
  "distinct (map it_hash items) \<Longrightarrow> depmap_ok items (length items) dm \<Longrightarrow>
   build_inv items s \<Longrightarrow> build_inv items (build_loop m items dm s)"
proof (induction m items dm s rule: build_loop.induct)
  case (1 m items dm s)
  show ?case
  proof (cases "build_step m items dm s")
    case None
    with "1.prems"(3) show ?thesis by (subst build_loop.simps) simp
  next
    case (Some s')
    from build_step_inv [OF "1.prems" Some] have "build_inv items s'" .
    from "1.IH" [OF Some "1.prems"(1,2) this] Some show ?thesis
      by (subst build_loop.simps) simp
  qed
qed

subsection \<open>Rounds\<close>

lemma loop_rounds_last: "last (loop_rounds m items dm s) = build_loop m items dm s"
proof (induction m items dm s rule: build_loop.induct)
  case (1 m items dm s)
  show ?case
  proof (cases "build_step m items dm s")
    case None
    then show ?thesis
      by (subst loop_rounds.simps, subst build_loop.simps) simp
  next
    case (Some s')
    have ne: "loop_rounds m items dm s' \<noteq> []" by (subst loop_rounds.simps) simp
    from "1.IH" [OF Some] Some ne show ?thesis
      by (subst loop_rounds.simps, subst build_loop.simps) simp
  qed
qed

lemma loop_rounds_inv:
  "distinct (map it_hash items) \<Longrightarrow> depmap_ok items (length items) dm \<Longrightarrow>
   build_inv items s \<Longrightarrow> t \<in> set (loop_rounds m items dm s) \<Longrightarrow>
     build_inv items t \<and> build_loop m items dm t = build_loop m items dm s"
proof (induction m items dm s rule: build_loop.induct)
  case (1 m items dm s)
  show ?case
  proof (cases "build_step m items dm s")
    case None
    with "1.prems"(4) have "t = s" by (subst (asm) loop_rounds.simps) simp
    with "1.prems"(3) show ?thesis by simp
  next
    case (Some s')
    from "1.prems"(4) Some have "t = s \<or> t \<in> set (loop_rounds m items dm s')"
      by (subst (asm) loop_rounds.simps) simp
    then show ?thesis
    proof
      assume "t = s"
      with "1.prems"(3) show ?thesis by simp
    next
      assume t: "t \<in> set (loop_rounds m items dm s')"
      from build_step_inv [OF "1.prems"(1,2,3) Some] have "build_inv items s'" .
      from "1.IH" [OF Some "1.prems"(1,2) this t]
      have "build_inv items t" "build_loop m items dm t = build_loop m items dm s'" by simp_all
      moreover from Some have "build_loop m items dm s = build_loop m items dm s'"
        by (subst build_loop.simps) simp
      ultimately show ?thesis by simp
    qed
  qed
qed

subsection \<open>A dropped item stays out of the block\<close>

lemma build_step_out:
  assumes dist: "distinct (map it_hash items)"
    and dm: "depmap_ok items (length items) dm"
    and inv: "build_inv items s"
    and o: "left_out items s i"
    and step: "build_step m items dm s = Some s'"
  shows "left_out items s' i"
  using step
proof (cases rule: build_step_cases)
  case skip
  with o show ?thesis by (auto simp add: left_out_def dest: in_set_butlastD)
next
  case switch
  from switch(1) have "bs_queue s = butlast (bs_queue s) @ [last (bs_queue s)]" by simp
  then have "set (queue_push m items False (butlast (bs_queue s)) (last (bs_queue s))) = set (bs_queue s)"
    by (metis Un_insert_right append_Nil2 list.simps(15) set_append set_queue_push)
  with o switch(3) show ?thesis by (simp add: left_out_def)
next
  case (accept dc q)
  let ?deps = "deps_of dm (it_hash (items ! last (bs_queue s)))"
  note rel = accept_release [OF dist dm inv accept(1) refl accept(2)]
  from o have il: "i < length items" and i0: "bs_depCount s i = 0"
    and iq: "i \<notin> set (bs_queue s)" and it: "i \<notin> set (bs_txs s)"
    by (simp_all add: left_out_def)
  from rel(4) i0 have nd: "i \<notin> set ?deps" by auto
  then have "count_list ?deps i = 0" by (simp add: count_list_0_iff)
  with rel(1) i0 have "dc i = 0" by simp
  moreover from rel(3) nd iq have "i \<notin> set q" by (auto dest: in_set_butlastD)
  moreover from iq accept(1) have "i \<noteq> last (bs_queue s)" by auto
  ultimately show ?thesis using il it accept(3,4,5) by (simp add: left_out_def)
qed

lemma build_loop_out:
  "distinct (map it_hash items) \<Longrightarrow> depmap_ok items (length items) dm \<Longrightarrow>
   build_inv items s \<Longrightarrow> left_out items s i \<Longrightarrow> i \<notin> set (bs_txs (build_loop m items dm s))"
proof (induction m items dm s rule: build_loop.induct)
  case (1 m items dm s)
  show ?case
  proof (cases "build_step m items dm s")
    case None
    with "1.prems"(4) show ?thesis by (subst build_loop.simps) (simp add: left_out_def)
  next
    case (Some s')
    from build_step_inv [OF "1.prems"(1,2,3) Some] have i: "build_inv items s'" .
    from build_step_out [OF "1.prems" Some] have o: "left_out items s' i" .
    from "1.IH" [OF Some "1.prems"(1,2) i o] Some show ?thesis
      by (subst build_loop.simps) simp
  qed
qed

lemma skips_step:
  "bs_queue s \<noteq> [] \<Longrightarrow> skips m s (items ! last (bs_queue s)) \<Longrightarrow>
     build_step m items dm s = Some (s\<lparr>bs_queue := butlast (bs_queue s)\<rparr>)"
  by (auto simp add: build_step_def skips_def Let_def)

lemma skipped_out:
  assumes dist: "distinct (map it_hash items)"
    and dm: "depmap_ok items (length items) dm"
    and inv: "build_inv items s"
    and ne: "bs_queue s \<noteq> []" and sk: "skips m s (items ! last (bs_queue s))"
  shows "last (bs_queue s) \<notin> set (bs_txs (build_loop m items dm s))"
proof -
  let ?i = "last (bs_queue s)"
  let ?s' = "s\<lparr>bs_queue := butlast (bs_queue s)\<rparr>"
  have step: "build_step m items dm s = Some ?s'" by (rule skips_step [OF ne sk])
  from build_step_inv [OF dist dm inv step] have inv': "build_inv items ?s'" .
  from ne have iq: "?i \<in> set (bs_queue s)" by simp
  from inv iq have il: "?i < length items" and i0: "bs_depCount s ?i = 0"
    and it: "?i \<notin> set (bs_txs s)" by (auto simp add: build_inv_def)
  from ne have "bs_queue s = butlast (bs_queue s) @ [?i]" by simp
  moreover from inv have "distinct (bs_queue s)" by (simp add: build_inv_def)
  ultimately have "?i \<notin> set (butlast (bs_queue s))"
    by (metis distinct_append distinct_butlast not_distinct_conv_prefix append.assoc append_Cons append_Nil)
  with il i0 it have "left_out items ?s' ?i" by (simp add: left_out_def)
  from build_loop_out [OF dist dm inv' this] step show ?thesis
    by (subst build_loop.simps) simp
qed

subsection \<open>From parents to ancestors\<close>

lemma parents_first:
  assumes dist: "distinct (map it_hash items)"
    and o: "dependency_order items txs"
    and ids: "\<forall>j \<in> set txs. j < length items"
    and k: "k < length txs" and p: "(a, txs ! k) \<in> parent_rel items"
  shows "a \<in> set (take k txs)"
proof -
  from p have al: "a < length items" and bl: "txs ! k < length items"
    and h: "it_hash (items ! a) \<in> set (it_prevouts (items ! (txs ! k)))"
    by (simp_all add: parent_rel_def)
  from al have "it_hash (items ! a) \<in> set (map it_hash items)" by simp
  with h have "it_hash (items ! a) \<in> set (mempool_parents items (txs ! k))" by (simp add: mempool_parents_def)
  with o k have "it_hash (items ! a) \<in> set (block_hashes items (take k txs))"
    by (auto simp add: dependency_order_def)
  then obtain j where j: "j \<in> set (take k txs)" and e: "it_hash (items ! j) = it_hash (items ! a)"
    by (auto simp add: block_hashes_def)
  from j have "j \<in> set txs" by (rule in_set_takeD)
  with ids have jl: "j < length items" by simp
  with e al have "map it_hash items ! j = map it_hash items ! a" by simp
  with nth_eq_iff_index_eq [OF dist, of j a] jl al have "j = a" by simp
  with j show ?thesis by simp
qed

lemma ancestors_first_intro:
  assumes dist: "distinct (map it_hash items)"
    and o: "dependency_order items txs"
    and ids: "\<forall>j \<in> set txs. j < length items"
  shows "ancestors_first items txs"
proof -
  have "\<forall>k < length txs. txs ! k = b \<longrightarrow> a \<in> set (take k txs)"
    if "(a, b) \<in> (parent_rel items)\<^sup>+" for a b
    using that
  proof (induction rule: trancl_induct)
    case (base y)
    then show ?case using parents_first [OF dist o ids] by auto
  next
    case (step y z)
    show ?case
    proof (intro allI impI)
      fix k assume k: "k < length txs" and z: "txs ! k = z"
      from step.hyps(2) z have "(y, txs ! k) \<in> parent_rel items" by simp
      from parents_first [OF dist o ids k this] have "y \<in> set (take k txs)" .
      then obtain j where j: "j < length (take k txs)" and e: "take k txs ! j = y"
        by (auto simp add: in_set_conv_nth)
      from j k have jk: "j < k" and jl: "j < length txs" by simp_all
      from e jk have "txs ! j = y" by simp
      with step.IH jl have "a \<in> set (take j txs)" by simp
      moreover from jk have "set (take j txs) \<subseteq> set (take k txs)"
        by (intro set_take_subset_set_take) simp
      ultimately show "a \<in> set (take k txs)" by auto
    qed
  qed
  then show ?thesis by (simp add: ancestors_first_def)
qed

lemma build_start_inv:
  assumes "init_loop m items 0 items [] (\<lambda>i. 0) [] = Inr (q, dc, dm)"
    and "bs_txs attempt = []"
  shows "depmap_ok items (length items) dm"
    and "build_inv items (attempt\<lparr>bs_queue := q, bs_priority := True, bs_depCount := dc\<rparr>)"
proof -
  have "depmap_ok items 0 []" by (simp add: depmap_ok_def deps_of_def)
  from init_loop_effect [OF assms(1), of "[]", OF _ _ this]
  have a: "depmap_ok items (length items) dm" and b: "distinct q"
    and c: "\<forall>j \<in> set q. j < length items \<and> dc j = 0"
    and d: "\<forall>j < length items. dc j = int (length (mempool_parents items j))"
    by simp_all
  from a show "depmap_ok items (length items) dm" .
  from b c d assms(2)
  show "build_inv items (attempt\<lparr>bs_queue := q, bs_priority := True, bs_depCount := dc\<rparr>)"
    by (simp add: build_inv_def pending_parents_def block_hashes_def dependency_order_def)
qed

text \<open>
  Claim C10. Let \<open>build\<close> return a template for a mempool snapshot of distinct hashes,
  the transaction vector empty after the coinbase on entry. Then in every state in which
  a round of the main loop begins, the \<open>depCount\<close> of each item is the number of its
  inputs that spend a mempool transaction not yet in the block, and it is zero for the
  items of the queue, so that only an item with no such parent left is taken off the
  queue and pushed; in the returned vector every in-mempool ancestor of a transaction
  stands at an earlier index; and an item that a round drops for finality, witness,
  weight or sigops is not in the vector, nor is any of its descendants.
\<close>

theorem build_dependency_order:
  assumes dist: "distinct (map it_hash items)"
    and empty: "bs_txs attempt = []"
    and built: "build m (Some items) attempt = Inr s"
  shows "(\<forall>t \<in> set (build_rounds m items attempt). build_inv items t)
       \<and> ancestors_first items (bs_txs s)
       \<and> skipped_excluded m items (build_rounds m items attempt) (bs_txs s)"
proof -
  from built obtain q dc dm where
    i: "init_loop m items 0 items [] (\<lambda>i. 0) [] = Inr (q, dc, dm)"
    by (auto simp add: build_def split: sum.splits)
  define s0 where "s0 = attempt\<lparr>bs_queue := q, bs_priority := True, bs_depCount := dc\<rparr>"
  from built i have s: "s = build_loop m items dm s0" by (simp add: build_def s0_def)
  from i have rs: "build_rounds m items attempt = loop_rounds m items dm s0"
    by (simp add: build_rounds_def s0_def)
  from build_start_inv [OF i empty]
  have dm: "depmap_ok items (length items) dm" and inv0: "build_inv items s0"
    by (simp_all add: s0_def)
  note rounds = loop_rounds_inv [OF dist dm inv0]
  have c1: "\<forall>t \<in> set (build_rounds m items attempt). build_inv items t"
    using rounds rs by simp
  from build_loop_inv [OF dist dm inv0] s have invs: "build_inv items s" by simp
  then have o: "dependency_order items (bs_txs s)"
    and ids: "\<forall>j \<in> set (bs_txs s). j < length items"
    by (simp_all add: build_inv_def)
  from ancestors_first_intro [OF dist o ids] have c2: "ancestors_first items (bs_txs s)" .
  have c3: "skipped_excluded m items (build_rounds m items attempt) (bs_txs s)"
    unfolding skipped_excluded_def
  proof (intro ballI impI conjI allI)
    fix t assume t: "t \<in> set (build_rounds m items attempt)"
      and sk: "bs_queue t \<noteq> [] \<and> skips m t (items ! last (bs_queue t))"
    from t rs rounds have it: "build_inv items t"
      and e: "build_loop m items dm t = build_loop m items dm s0" by simp_all
    from sk have ne: "bs_queue t \<noteq> []" and sk': "skips m t (items ! last (bs_queue t))"
      by simp_all
    from skipped_out [OF dist dm it ne sk'] e s
    show n: "last (bs_queue t) \<notin> set (bs_txs s)" by simp
    fix b assume b: "(last (bs_queue t), b) \<in> (parent_rel items)\<^sup>+"
    show "b \<notin> set (bs_txs s)"
    proof
      assume "b \<in> set (bs_txs s)"
      then obtain k where k: "k < length (bs_txs s)" and bk: "bs_txs s ! k = b"
        by (auto simp add: in_set_conv_nth)
      with c2 b have "last (bs_queue t) \<in> set (take k (bs_txs s))"
        by (simp add: ancestors_first_def)
      then have "last (bs_queue t) \<in> set (bs_txs s)" by (rule in_set_takeD)
      with n show False by simp
    qed
  qed
  from c1 c2 c3 show ?thesis by simp
qed

theorem build_dependency_order_witness:
  "distinct (map it_hash ex_pool) \<and> bs_txs ex_attempt = []
   \<and> (\<exists>s. build ex_miner (Some ex_pool) ex_attempt = Inr s \<and> bs_txs s = [0, 1, 2])
   \<and> ancestors_first ex_pool [0, 1, 2]
   \<and> skipped_excluded ex_miner ex_pool (build_rounds ex_miner ex_pool ex_attempt) [0, 1, 2]"
proof -
  have h1: "distinct (map it_hash ex_pool)" by (simp add: ex_miner_defs)
  have h2: "bs_txs ex_attempt = []" by (simp add: ex_miner_defs)
  obtain s where b: "build ex_miner (Some ex_pool) ex_attempt = Inr s"
    and t: "bs_txs s = [0, 1, 2]"
    by (simp add: ex_miner_defs build_defs build_loop.simps)
  from build_dependency_order [OF h1 h2 b] t h1 h2 b show ?thesis by auto
qed


end
